theory Spec2Isabelle
  imports Main "HOL-Library.Char_ord" "HOL-Library.List_Lexorder"
begin

section \<open>Data model of skiplist.go\<close>

text \<open>
  Keys and values are Go \<open>interface{}\<close> values. The code distinguishes four cases only:
  the nil interface, a dynamic \<open>int\<close>, a dynamic \<open>string\<close>, and any other dynamic type
  (for which every type assertion of the code fails). Keys are only ever compared, never
  computed with, so a Go \<open>int\<close> is an \<open>int\<close> here; a Go string is a byte sequence, ordered
  bytewise, which is the lexicographic order on \<open>string\<close>.
\<close>

datatype iface = NilV | IntV int | StrV string | OtherV nat

text \<open>The two values of \<open>reflect.Type\<close> the package is documented for, and any other one.\<close>

datatype rtype = IntT | StringT | OtherT

text \<open>
  A \<open>*node\<close> is an address into the store of allocated nodes, or nil. The store is the
  list of all nodes ever allocated; \<open>&node{...}\<close> appends to it. The field \<open>value\<close> is
  \<open>val\<close> and the field \<open>length\<close> is \<open>slength\<close> here. The field \<open>level\<close> is a natural
  number: the code sets it to 1, to a sampled height, or decrements it while it is above 1.
\<close>

type_synonym ref = "nat option"

record node =
  key :: iface
  val :: iface
  forward :: "ref list"

record SkipList =
  heap :: "node list"
  head :: ref
  level :: nat
  slength :: int
  keyType :: rtype

record SkipListIterator =
  list :: SkipList
  node :: ref
  isHead :: bool

text \<open>The two errors the package creates with \<open>errors.New\<close>, and the run-time panics.\<close>

datatype error = NilKey | NotFound

datatype panic = IndexOutOfRange | NilDereference

text \<open>
  The outcome of running a piece of the code: \<open>None\<close> when it runs forever, a panic, or a
  normal return.
\<close>

type_synonym 'a res = "(panic + 'a) option"

abbreviation ret :: "'a \<Rightarrow> 'a res" where
  "ret x \<equiv> Some (Inr x)"

abbreviation raise :: "panic \<Rightarrow> 'a res" where
  "raise p \<equiv> Some (Inl p)"

definition bnd :: "'a res \<Rightarrow> ('a \<Rightarrow> 'b res) \<Rightarrow> 'b res" where
  "bnd m f = (case m of None \<Rightarrow> None | Some (Inl p) \<Rightarrow> raise p | Some (Inr x) \<Rightarrow> f x)"

subsection \<open>Memory accesses\<close>

text \<open>\<open>*p\<close>: a nil pointer panics.\<close>

definition deref :: "node list \<Rightarrow> ref \<Rightarrow> node res" where
  "deref h p = (case p of None \<Rightarrow> raise NilDereference
     | Some a \<Rightarrow> if a < length h then ret (h ! a) else raise NilDereference)"

text \<open>\<open>xs[i]\<close> read and \<open>xs[i] = v\<close>: an index outside the slice panics.\<close>

definition index :: "'a list \<Rightarrow> nat \<Rightarrow> 'a res" where
  "index xs i = (if i < length xs then ret (xs ! i) else raise IndexOutOfRange)"

definition store :: "'a list \<Rightarrow> nat \<Rightarrow> 'a \<Rightarrow> 'a list res" where
  "store xs i v = (if i < length xs then ret (xs[i := v]) else raise IndexOutOfRange)"

text \<open>\<open>p.forward[i]\<close>, \<open>p.forward[i] = q\<close> and \<open>p.value = v\<close>.\<close>

definition getfwd :: "node list \<Rightarrow> ref \<Rightarrow> nat \<Rightarrow> ref res" where
  "getfwd h p i = bnd (deref h p) (\<lambda>n. index (forward n) i)"

definition setfwd :: "node list \<Rightarrow> ref \<Rightarrow> nat \<Rightarrow> ref \<Rightarrow> node list res" where
  "setfwd h p i q = bnd (deref h p) (\<lambda>n. bnd (store (forward n) i q)
     (\<lambda>fw. ret (h[the p := n\<lparr>forward := fw\<rparr>])))"

definition setval :: "node list \<Rightarrow> ref \<Rightarrow> iface \<Rightarrow> node list res" where
  "setval h p v = bnd (deref h p) (\<lambda>n. ret (h[the p := n\<lparr>val := v\<rparr>]))"

section \<open>Construction, level sampling, comparison\<close>

definition DefaultMaxLevel :: nat where
  "DefaultMaxLevel = 48"

definition NewSkipList :: "rtype \<Rightarrow> SkipList" where
  "NewSkipList kt = \<lparr>heap = [\<lparr>key = NilV, val = NilV, forward = replicate 1 None\<rparr>],
     head = Some 0, level = 1, slength = 0, keyType = kt\<rparr>"

text \<open>
  \<open>randomLevel\<close> draws from the global random source: \<open>rnd n\<close> is the outcome of
  \<open>rand.Float64() < 0.5\<close> at the \<open>n\<close>-th draw of one call, counted from 0. The level
  starts at 1 and grows by one with each draw, so the loop at level \<open>lvl\<close> makes draw
  number \<open>lvl - 1\<close>.
\<close>

function randomLevel_loop :: "(nat \<Rightarrow> bool) \<Rightarrow> nat \<Rightarrow> nat" where
  "randomLevel_loop rnd lvl =
     (if rnd (lvl - 1) \<and> lvl < 32 then randomLevel_loop rnd (lvl + 1) else lvl)"
  by pat_completeness auto
termination
  by (relation "measure (\<lambda>(rnd, lvl). 32 - lvl)") auto

definition randomLevel :: "(nat \<Rightarrow> bool) \<Rightarrow> nat" where
  "randomLevel rnd = randomLevel_loop rnd 1"

text \<open>\<open>strings.Compare\<close> of the Go library: -1, 0 or 1 by the bytewise order.\<close>

definition strings_Compare :: "string \<Rightarrow> string \<Rightarrow> int" where
  "strings_Compare a b = (if a = b then 0 else if a < b then - 1 else 1)"

definition compare :: "iface \<Rightarrow> iface \<Rightarrow> int" where
  "compare a b = (case a of
       IntV x \<Rightarrow> (case b of
           IntV y \<Rightarrow> if x < y then - 1 else if x > y then 1 else 0
         | _ \<Rightarrow> 0)
     | StrV x \<Rightarrow> (case b of
           StrV y \<Rightarrow> strings_Compare x y
         | _ \<Rightarrow> 0)
     | _ \<Rightarrow> 0)"

section \<open>The traversal shared by Insert, Search and Delete\<close>

text \<open>
  The inner loop
  \<open>for current.forward[i] != nil && s.compare(current.forward[i].key, key) < 0\<close>.
  On a cyclic chain it does not return.
\<close>

partial_function (option) advance :: "node list \<Rightarrow> nat \<Rightarrow> iface \<Rightarrow> ref \<Rightarrow> ref res" where
  "advance h i k current =
     (case getfwd h current i of
        None \<Rightarrow> None
      | Some (Inl p) \<Rightarrow> raise p
      | Some (Inr None) \<Rightarrow> ret current
      | Some (Inr (Some a)) \<Rightarrow>
          (case deref h (Some a) of
             None \<Rightarrow> None
           | Some (Inl p) \<Rightarrow> raise p
           | Some (Inr n) \<Rightarrow>
               if compare (key n) k < 0 then advance h i k (Some a) else ret current))"

text \<open>
  The outer loop \<open>for i := s.level - 1; i >= 0; i--\<close> with \<open>update[i] = current\<close>; the
  third argument is \<open>i + 1\<close>.
\<close>

fun descend :: "node list \<Rightarrow> iface \<Rightarrow> nat \<Rightarrow> ref \<Rightarrow> ref list \<Rightarrow> (ref \<times> ref list) res" where
  "descend h k 0 current update = ret (current, update)"
| "descend h k (Suc i) current update =
     bnd (advance h i k current) (\<lambda>current.
     bnd (store update i current) (\<lambda>update.
     descend h k i current update))"

text \<open>The same loop in Search, which keeps no update vector.\<close>

fun descend_search :: "node list \<Rightarrow> iface \<Rightarrow> nat \<Rightarrow> ref \<Rightarrow> ref res" where
  "descend_search h k 0 current = ret current"
| "descend_search h k (Suc i) current =
     bnd (advance h i k current) (\<lambda>current. descend_search h k i current)"

text \<open>\<open>current != nil && s.compare(current.key, key) == 0\<close>\<close>

definition hit :: "node list \<Rightarrow> ref \<Rightarrow> iface \<Rightarrow> bool res" where
  "hit h current k = (case current of None \<Rightarrow> ret False
     | Some a \<Rightarrow> bnd (deref h current) (\<lambda>n. ret (compare (key n) k = 0)))"

section \<open>Insert\<close>

text \<open>\<open>for i := s.level; i < level; i++ { update[i] = s.head }\<close>; the last argument counts
  the remaining iterations.\<close>

fun extend :: "ref list \<Rightarrow> ref \<Rightarrow> nat \<Rightarrow> nat \<Rightarrow> ref list res" where
  "extend update h0 i 0 = ret update"
| "extend update h0 i (Suc n) =
     bnd (store update i h0) (\<lambda>update. extend update h0 (Suc i) n)"

text \<open>
  \<open>for i := 0; i < level; i++\<close>: \<open>newNode.forward[i] = update[i].forward[i]\<close>, then
  \<open>update[i].forward[i] = newNode\<close>.
\<close>

fun splice :: "node list \<Rightarrow> ref list \<Rightarrow> ref \<Rightarrow> nat \<Rightarrow> nat \<Rightarrow> node list res" where
  "splice h update newNode i 0 = ret h"
| "splice h update newNode i (Suc n) =
     bnd (index update i) (\<lambda>u.
     bnd (getfwd h u i) (\<lambda>nx.
     bnd (setfwd h newNode i nx) (\<lambda>h.
     bnd (setfwd h u i newNode) (\<lambda>h.
     splice h update newNode (Suc i) n))))"

definition Insert :: "iface \<Rightarrow> iface \<Rightarrow> (nat \<Rightarrow> bool) \<Rightarrow> SkipList \<Rightarrow> (error option \<times> SkipList) res" where
  "Insert k v rnd s =
     (if k = NilV then ret (Some NilKey, s)
      else
        bnd (descend (heap s) k (level s) (head s) (replicate (level s) None)) (\<lambda>(current, update).
        bnd (getfwd (heap s) current 0) (\<lambda>current.
        bnd (hit (heap s) current k) (\<lambda>found.
        if found then
          bnd (setval (heap s) current v) (\<lambda>h. ret (None, s\<lparr>heap := h\<rparr>))
        else
          let lvl = randomLevel rnd in
          bnd (if lvl > level s
               then bnd (extend update (head s) (level s) (lvl - level s))
                      (\<lambda>update. ret (update, s\<lparr>level := lvl\<rparr>))
               else ret (update, s)) (\<lambda>(update, s).
          let newNode = Some (length (heap s));
              h = heap s @ [\<lparr>key = k, val = v, forward = replicate lvl None\<rparr>] in
          bnd (splice h update newNode 0 lvl) (\<lambda>h.
          ret (None, s\<lparr>heap := h, slength := slength s + 1\<rparr>)))))))"

section \<open>Search\<close>

definition Search :: "iface \<Rightarrow> SkipList \<Rightarrow> (iface \<times> error option) res" where
  "Search k s =
     (if k = NilV then ret (NilV, Some NilKey)
      else
        bnd (descend_search (heap s) k (level s) (head s)) (\<lambda>current.
        bnd (getfwd (heap s) current 0) (\<lambda>current.
        bnd (hit (heap s) current k) (\<lambda>found.
        if found then bnd (deref (heap s) current) (\<lambda>n. ret (val n, None))
        else ret (NilV, Some NotFound)))))"

section \<open>Delete\<close>

text \<open>
  \<open>for i := 0; i < s.level; i++\<close>: break when \<open>update[i].forward[i] != current\<close>, else
  \<open>update[i].forward[i] = current.forward[i]\<close>. The last argument counts the remaining
  iterations.
\<close>

fun unlink :: "node list \<Rightarrow> ref list \<Rightarrow> ref \<Rightarrow> nat \<Rightarrow> nat \<Rightarrow> node list res" where
  "unlink h update current i 0 = ret h"
| "unlink h update current i (Suc n) =
     bnd (index update i) (\<lambda>u.
     bnd (getfwd h u i) (\<lambda>f.
     if f \<noteq> current then ret h
     else
       bnd (getfwd h current i) (\<lambda>nx.
       bnd (setfwd h u i nx) (\<lambda>h.
       unlink h update current (Suc i) n))))"

text \<open>\<open>for s.level > 1 && s.head.forward[s.level-1] == nil { s.level-- }\<close>\<close>

fun shrink :: "node list \<Rightarrow> ref \<Rightarrow> nat \<Rightarrow> nat res" where
  "shrink h h0 (Suc (Suc n)) =
     bnd (getfwd h h0 (Suc n)) (\<lambda>f.
     if f = None then shrink h h0 (Suc n) else ret (Suc (Suc n)))"
| "shrink h h0 lvl = ret lvl"

definition Delete :: "iface \<Rightarrow> SkipList \<Rightarrow> (error option \<times> SkipList) res" where
  "Delete k s =
     (if k = NilV then ret (Some NilKey, s)
      else
        bnd (descend (heap s) k (level s) (head s) (replicate (level s) None)) (\<lambda>(current, update).
        bnd (getfwd (heap s) current 0) (\<lambda>current.
        bnd (hit (heap s) current k) (\<lambda>found.
        if found then
          bnd (unlink (heap s) update current 0 (level s)) (\<lambda>h.
          bnd (shrink h (head s) (level s)) (\<lambda>lvl.
          ret (None, s\<lparr>heap := h, level := lvl, slength := slength s - 1\<rparr>)))
        else ret (Some NotFound, s)))))"

section \<open>Length, Clear and the cursor\<close>

definition Length :: "SkipList \<Rightarrow> int" where
  "Length s = slength s"

definition Clear :: "SkipList \<Rightarrow> SkipList res" where
  "Clear s = bnd (deref (heap s) (head s)) (\<lambda>n.
     ret (s\<lparr>heap := (heap s)[the (head s) := n\<lparr>forward := replicate DefaultMaxLevel None\<rparr>],
            level := 1, slength := 0\<rparr>))"

definition Iterator :: "SkipList \<Rightarrow> SkipListIterator" where
  "Iterator s = \<lparr>list = s, node = head s, isHead = True\<rparr>"

definition Next :: "SkipListIterator \<Rightarrow> (bool \<times> SkipListIterator) res" where
  "Next it = bnd (getfwd (heap (list it)) (node it) 0) (\<lambda>f.
     if f \<noteq> None then ret (True, it\<lparr>node := f, isHead := False\<rparr>) else ret (False, it))"

definition Key :: "SkipListIterator \<Rightarrow> iface res" where
  "Key it = (if isHead it then ret NilV
     else bnd (deref (heap (list it)) (node it)) (\<lambda>n. ret (key n)))"

definition Value :: "SkipListIterator \<Rightarrow> iface res" where
  "Value it = (if isHead it then ret NilV
     else bnd (deref (heap (list it)) (node it)) (\<lambda>n. ret (val n)))"

text \<open>
  A full iteration is the caller's loop \<open>for it.Next() { ... it.Key() ... it.Value() ... }\<close>;
  it returns the pairs read after each \<open>Next\<close> that returned true.
\<close>

partial_function (option) iterate ::
    "SkipListIterator \<Rightarrow> (iface \<times> iface) list \<Rightarrow> (iface \<times> iface) list res" where
  "iterate it acc =
     (case Next it of
        None \<Rightarrow> None
      | Some (Inl p) \<Rightarrow> raise p
      | Some (Inr (b, it')) \<Rightarrow>
          if b then
            (case Key it' of
               None \<Rightarrow> None
             | Some (Inl p) \<Rightarrow> raise p
             | Some (Inr k) \<Rightarrow>
                 (case Value it' of
                    None \<Rightarrow> None
                  | Some (Inl p) \<Rightarrow> raise p
                  | Some (Inr v) \<Rightarrow> iterate it' (acc @ [(k, v)])))
          else ret acc)"

section \<open>Minimum and maximum keys\<close>

text \<open>The scan \<open>for current != nil\<close> of MinString, with its running \<open>minKey\<close>.\<close>

partial_function (option) minString_loop :: "node list \<Rightarrow> ref \<Rightarrow> string \<Rightarrow> string res" where
  "minString_loop h current minKey =
     (case current of
        None \<Rightarrow> ret minKey
      | Some a \<Rightarrow>
          (case deref h current of
             None \<Rightarrow> None
           | Some (Inl p) \<Rightarrow> raise p
           | Some (Inr n) \<Rightarrow>
               (case index (forward n) 0 of
                  None \<Rightarrow> None
                | Some (Inl p) \<Rightarrow> raise p
                | Some (Inr nx) \<Rightarrow>
                    minString_loop h nx
                      (case key n of
                         StrV k \<Rightarrow> if minKey = [] \<or> k < minKey then k else minKey
                       | _ \<Rightarrow> minKey))))"

definition MinString :: "SkipList \<Rightarrow> (string \<times> bool) res" where
  "MinString s =
     (if slength s = 0 then ret ([], False)
      else
        bnd (getfwd (heap s) (head s) 0) (\<lambda>current.
        bnd (minString_loop (heap s) current []) (\<lambda>minKey.
        if minKey \<noteq> [] then ret (minKey, True) else ret ([], False))))"

partial_function (option) maxString_loop :: "node list \<Rightarrow> ref \<Rightarrow> string \<Rightarrow> string res" where
  "maxString_loop h current maxKey =
     (case current of
        None \<Rightarrow> ret maxKey
      | Some a \<Rightarrow>
          (case deref h current of
             None \<Rightarrow> None
           | Some (Inl p) \<Rightarrow> raise p
           | Some (Inr n) \<Rightarrow>
               (case index (forward n) 0 of
                  None \<Rightarrow> None
                | Some (Inl p) \<Rightarrow> raise p
                | Some (Inr nx) \<Rightarrow>
                    maxString_loop h nx
                      (case key n of
                         StrV k \<Rightarrow> if maxKey = [] \<or> k > maxKey then k else maxKey
                       | _ \<Rightarrow> maxKey))))"

definition MaxString :: "SkipList \<Rightarrow> (string \<times> bool) res" where
  "MaxString s =
     (if slength s = 0 then ret ([], False)
      else
        bnd (getfwd (heap s) (head s) 0) (\<lambda>current.
        bnd (maxString_loop (heap s) current []) (\<lambda>maxKey.
        if maxKey \<noteq> [] then ret (maxKey, True) else ret ([], False))))"






section \<open>Sorted snapshots\<close>

definition compareKeysOrValues :: "iface \<Rightarrow> iface \<Rightarrow> bool" where
  "compareKeysOrValues a b = (case (a, b) of
       (IntV x, IntV y) \<Rightarrow> x < y
     | (StrV x, StrV y) \<Rightarrow> x < y
     | _ \<Rightarrow> False)"

text \<open>
  \<open>sort.Slice\<close> belongs to the Go library, not to this package. It sorts a slice in place
  by a \<open>less\<close> function and promises no stability. The model is the insertion sort that the
  library runs on slices of at most 12 elements: each element in turn moves left while it
  is \<open>less\<close> than its left neighbour. \<open>insert_left\<close> works on the reversed sorted prefix.
  On a longer slice the library runs another algorithm; it returns the same slice as this
  model whenever \<open>less\<close> orders the elements strictly and totally (then there is one
  sorted arrangement), and may return another one otherwise, as for values of mixed or
  unsupported types in \<open>SortByValue\<close>. Nothing below relies on the model outside the
  first case.
\<close>

fun insert_left :: "('a \<Rightarrow> 'a \<Rightarrow> bool) \<Rightarrow> 'a \<Rightarrow> 'a list \<Rightarrow> 'a list" where
  "insert_left lt x [] = [x]"
| "insert_left lt x (y # rs) = (if lt x y then y # insert_left lt x rs else x # y # rs)"

definition sort_Slice :: "('a \<Rightarrow> 'a \<Rightarrow> bool) \<Rightarrow> 'a list \<Rightarrow> 'a list" where
  "sort_Slice lt xs = rev (foldl (\<lambda>rs x. insert_left lt x rs) [] xs)"

text \<open>The loop \<open>for current != nil { result = append(result, current.key) }\<close>.\<close>

partial_function (option) keys_loop :: "node list \<Rightarrow> ref \<Rightarrow> iface list \<Rightarrow> iface list res" where
  "keys_loop h current result =
     (case current of
        None \<Rightarrow> ret result
      | Some a \<Rightarrow>
          (case deref h current of
             None \<Rightarrow> None
           | Some (Inl p) \<Rightarrow> raise p
           | Some (Inr n) \<Rightarrow>
               (case index (forward n) 0 of
                  None \<Rightarrow> None
                | Some (Inl p) \<Rightarrow> raise p
                | Some (Inr nx) \<Rightarrow> keys_loop h nx (result @ [key n]))))"

partial_function (option) values_loop :: "node list \<Rightarrow> ref \<Rightarrow> iface list \<Rightarrow> iface list res" where
  "values_loop h current result =
     (case current of
        None \<Rightarrow> ret result
      | Some a \<Rightarrow>
          (case deref h current of
             None \<Rightarrow> None
           | Some (Inl p) \<Rightarrow> raise p
           | Some (Inr n) \<Rightarrow>
               (case index (forward n) 0 of
                  None \<Rightarrow> None
                | Some (Inl p) \<Rightarrow> raise p
                | Some (Inr nx) \<Rightarrow> values_loop h nx (result @ [val n]))))"

definition SortByKey :: "bool \<Rightarrow> SkipList \<Rightarrow> iface list res" where
  "SortByKey reverse s =
     (if slength s = 0 then ret []
      else
        bnd (getfwd (heap s) (head s) 0) (\<lambda>current.
        bnd (keys_loop (heap s) current []) (\<lambda>result.
        if reverse then ret (sort_Slice (\<lambda>a b. compareKeysOrValues b a) result)
        else ret (sort_Slice compareKeysOrValues result))))"

definition SortByValue :: "bool \<Rightarrow> SkipList \<Rightarrow> iface list res" where
  "SortByValue reverse s =
     (if slength s = 0 then ret []
      else
        bnd (getfwd (heap s) (head s) 0) (\<lambda>current.
        bnd (values_loop (heap s) current []) (\<lambda>result.
        if reverse then ret (sort_Slice (\<lambda>a b. compareKeysOrValues b a) result)
        else ret (sort_Slice compareKeysOrValues result))))"

text \<open>The loops that need not return run by their unfolding equations.\<close>

declare advance.simps [code]
declare iterate.simps [code]
declare minString_loop.simps [code]
declare maxString_loop.simps [code]
declare keys_loop.simps [code]
declare values_loop.simps [code]

section \<open>Chains, levels and contents\<close>

text \<open>
  The keys met from a node pointer when following \<open>forward[i]\<close> until nil: the scan of
  level \<open>i\<close>. It is the loop of \<open>SortByKey\<close> at an arbitrary level.
\<close>

partial_function (option) scan :: "node list \<Rightarrow> nat \<Rightarrow> ref \<Rightarrow> iface list \<Rightarrow> iface list res" where
  "scan h i current result =
     (case current of
        None \<Rightarrow> ret result
      | Some a \<Rightarrow>
          (case deref h current of
             None \<Rightarrow> None
           | Some (Inl p) \<Rightarrow> raise p
           | Some (Inr n) \<Rightarrow>
               (case index (forward n) i of
                  None \<Rightarrow> None
                | Some (Inl p) \<Rightarrow> raise p
                | Some (Inr nx) \<Rightarrow> scan h i nx (result @ [key n]))))"

declare scan.simps [code]

definition level_keys :: "SkipList \<Rightarrow> nat \<Rightarrow> iface list res" where
  "level_keys s i = bnd (getfwd (heap s) (head s) i) (\<lambda>p. scan (heap s) i p [])"

text \<open>The live nodes, as the cursor shows them: the (key, value) pairs of a full iteration.\<close>

definition contents :: "SkipList \<Rightarrow> (iface \<times> iface) list res" where
  "contents s = iterate (Iterator s) []"

text \<open>The strict order of the comparator: \<open>s.compare(a, b) < 0\<close>.\<close>

definition before :: "iface \<Rightarrow> iface \<Rightarrow> bool" where
  "before a b = (compare a b < 0)"

text \<open>
  \<open>lseg h p as q\<close>: following \<open>forward[0]\<close> from \<open>p\<close> visits exactly the addresses \<open>as\<close>
  and then reaches \<open>q\<close>.
\<close>

fun lseg :: "node list \<Rightarrow> ref \<Rightarrow> nat list \<Rightarrow> ref \<Rightarrow> bool" where
  "lseg h p [] q = (p = q)"
| "lseg h p (a # as) q =
     (p = Some a \<and> a < length h \<and> forward (h ! a) \<noteq> [] \<and> lseg h (forward (h ! a) ! 0) as q)"

definition pairs :: "node list \<Rightarrow> nat list \<Rightarrow> (iface \<times> iface) list" where
  "pairs h as = map (\<lambda>a. (key (h ! a), val (h ! a))) as"

text \<open>
  \<open>repr s as\<close>: the list \<open>s\<close> is a head node followed by the nodes at the addresses
  \<open>as\<close>, all distinct, linked at level 0 and ending in nil; one level is in use; the
  keys are not nil and increase strictly; \<open>length\<close> counts the nodes.
\<close>

definition repr :: "SkipList \<Rightarrow> nat list \<Rightarrow> bool" where
  "repr s as = (\<exists>a0. head s = Some a0 \<and> lseg (heap s) (Some a0) (a0 # as) None \<and>
     distinct (a0 # as) \<and> level s = 1 \<and> slength s = int (length as) \<and>
     sorted_wrt before (map fst (pairs (heap s) as)) \<and>
     NilV \<notin> set (map fst (pairs (heap s) as)))"

text \<open>
  Where the traversal for \<open>k\<close> ends on a chain with head \<open>a0\<close> and nodes \<open>as\<close>: the
  nodes from the first one whose key is not before \<open>k\<close>, the node in front of them, and
  whether the first of them has a key that compares equal to \<open>k\<close>.
\<close>

definition stop_at :: "node list \<Rightarrow> iface \<Rightarrow> nat list \<Rightarrow> nat list" where
  "stop_at h k as = dropWhile (\<lambda>a. before (key (h ! a)) k) as"

definition pred_at :: "node list \<Rightarrow> iface \<Rightarrow> nat \<Rightarrow> nat list \<Rightarrow> nat" where
  "pred_at h k a0 as = last (a0 # takeWhile (\<lambda>a. before (key (h ! a)) k) as)"

definition found_at :: "node list \<Rightarrow> iface \<Rightarrow> nat list \<Rightarrow> bool" where
  "found_at h k as = (case stop_at h k as of [] \<Rightarrow> False | b # bs \<Rightarrow> compare (key (h ! b)) k = 0)"

text \<open>
  The store after a node of height 1 with key \<open>k\<close> and value \<open>v\<close> is allocated and linked
  behind the node at \<open>u\<close>, and the store after the successor \<open>d\<close> of \<open>u\<close> is unlinked.
\<close>

definition link_new :: "node list \<Rightarrow> nat \<Rightarrow> iface \<Rightarrow> iface \<Rightarrow> node list" where
  "link_new h u k v =
     (h @ [\<lparr>key = k, val = v, forward = [forward (h ! u) ! 0]\<rparr>])
       [u := (h ! u)\<lparr>forward := (forward (h ! u))[0 := Some (length h)]\<rparr>]"

definition unlink_cell :: "node list \<Rightarrow> nat \<Rightarrow> nat \<Rightarrow> node list" where
  "unlink_cell h u d = h[u := (h ! u)\<lparr>forward := (forward (h ! u))[0 := forward (h ! d) ! 0]\<rparr>]"

section \<open>Lists built by the package\<close>

text \<open>
  Two sequences of draws: every draw is at least 0.5 (\<open>randomLevel\<close> returns 1), and only
  the first draw is below 0.5 (\<open>randomLevel\<close> returns 2).
\<close>

definition tails :: "nat \<Rightarrow> bool" where
  "tails n = False"

definition heads_once :: "nat \<Rightarrow> bool" where
  "heads_once n = (n = 0)"


text \<open>
  The lists a program can hold: the result of \<open>NewSkipList\<close>, and the result of every call
  of Insert, Delete and Clear that returns. A call that returns an error has assigned to
  nothing, and neither has an Insert that panics at \<open>update[i] = s.head\<close>, its first
  assignment after the traversal; so those calls add no list.
\<close>

inductive reachable :: "SkipList \<Rightarrow> bool" where
  r_new: "reachable (NewSkipList kt)"
| r_insert: "reachable s \<Longrightarrow> Insert k v rnd s = ret (e, s') \<Longrightarrow> reachable s'"
| r_delete: "reachable s \<Longrightarrow> Delete k s = ret (e, s') \<Longrightarrow> reachable s'"
| r_clear: "reachable s \<Longrightarrow> Clear s = ret s' \<Longrightarrow> reachable s'"

text \<open>Whether two keys are both ints or both strings, the only pairs the comparator orders.\<close>

definition same_supported_type :: "iface \<Rightarrow> iface \<Rightarrow> bool" where
  "same_supported_type a b = (case (a, b) of
       (IntV x, IntV y) \<Rightarrow> True
     | (StrV x, StrV y) \<Rightarrow> True
     | _ \<Rightarrow> False)"

text \<open>
  The lists after \<open>Insert(3, "c")\<close>, then \<open>Insert(1, "a")\<close>, then \<open>Insert(2, "b")\<close> on a new
  list, each with a sampled height of 1.
\<close>

definition one_key :: SkipList where
  "one_key = \<lparr>heap = [\<lparr>key = NilV, val = NilV, forward = [Some 1]\<rparr>,
                      \<lparr>key = IntV 3, val = StrV ''c'', forward = [None]\<rparr>],
               head = Some 0, level = 1, slength = 1, keyType = IntT\<rparr>"

definition two_keys :: SkipList where
  "two_keys = \<lparr>heap = [\<lparr>key = NilV, val = NilV, forward = [Some 2]\<rparr>,
                       \<lparr>key = IntV 3, val = StrV ''c'', forward = [None]\<rparr>,
                       \<lparr>key = IntV 1, val = StrV ''a'', forward = [Some 1]\<rparr>],
                head = Some 0, level = 1, slength = 2, keyType = IntT\<rparr>"

definition three_keys :: SkipList where
  "three_keys = \<lparr>heap = [\<lparr>key = NilV, val = NilV, forward = [Some 2]\<rparr>,
                         \<lparr>key = IntV 3, val = StrV ''c'', forward = [None]\<rparr>,
                         \<lparr>key = IntV 1, val = StrV ''a'', forward = [Some 3]\<rparr>,
                         \<lparr>key = IntV 2, val = StrV ''b'', forward = [Some 1]\<rparr>],
                  head = Some 0, level = 1, slength = 3, keyType = IntT\<rparr>"

text \<open>The list \<open>three_keys\<close> after its first node is unlinked.\<close>

definition first_removed :: SkipList where
  "first_removed = \<lparr>heap = [\<lparr>key = NilV, val = NilV, forward = [Some 3]\<rparr>,
                            \<lparr>key = IntV 3, val = StrV ''c'', forward = [None]\<rparr>,
                            \<lparr>key = IntV 1, val = StrV ''a'', forward = [Some 3]\<rparr>,
                            \<lparr>key = IntV 2, val = StrV ''b'', forward = [Some 1]\<rparr>],
                     head = Some 0, level = 1, slength = 2, keyType = IntT\<rparr>"


text \<open>
  The lists after \<open>Insert("", 1)\<close> and then \<open>Insert("a", 2)\<close> on a new list of string keys,
  each with a sampled height of 1.
\<close>

definition empty_string_key :: SkipList where
  "empty_string_key = \<lparr>heap = [\<lparr>key = NilV, val = NilV, forward = [Some 1]\<rparr>,
                               \<lparr>key = StrV [], val = IntV 1, forward = [None]\<rparr>],
                        head = Some 0, level = 1, slength = 1, keyType = StringT\<rparr>"

definition two_strings :: SkipList where
  "two_strings = \<lparr>heap = [\<lparr>key = NilV, val = NilV, forward = [Some 1]\<rparr>,
                          \<lparr>key = StrV [], val = IntV 1, forward = [Some 2]\<rparr>,
                          \<lparr>key = StrV ''a'', val = IntV 2, forward = [None]\<rparr>],
                   head = Some 0, level = 1, slength = 2, keyType = StringT\<rparr>"

text \<open>
  A list with two levels, written by hand: the head, the key 1 with height 1 and the key 2
  with height 2 (what \<open>Insert(1, "a")\<close> and \<open>Insert(2, "b")\<close> with sampled heights 1 and 2
  would link); and the same list after the key 2 is unlinked at both levels and the level
  is lowered to 1.
\<close>

definition two_levels :: SkipList where
  "two_levels = \<lparr>heap = [\<lparr>key = NilV, val = NilV, forward = [Some 1, Some 2]\<rparr>,
                         \<lparr>key = IntV 1, val = StrV ''a'', forward = [Some 2]\<rparr>,
                         \<lparr>key = IntV 2, val = StrV ''b'', forward = [None, None]\<rparr>],
                  head = Some 0, level = 2, slength = 2, keyType = IntT\<rparr>"

definition two_levels_after :: SkipList where
  "two_levels_after = \<lparr>heap = [\<lparr>key = NilV, val = NilV, forward = [Some 1, None]\<rparr>,
                               \<lparr>key = IntV 1, val = StrV ''a'', forward = [None]\<rparr>,
                               \<lparr>key = IntV 2, val = StrV ''b'', forward = [None, None]\<rparr>],
                        head = Some 0, level = 1, slength = 1, keyType = IntT\<rparr>"

section \<open>Basic facts about outcomes and memory accesses\<close>

lemma bnd_ret [simp]: "bnd (ret x) f = f x"
  by (simp add: bnd_def)

lemma bnd_raise [simp]: "bnd (raise p) f = raise p"
  by (simp add: bnd_def)

lemma bnd_None [simp]: "bnd None f = None"
  by (simp add: bnd_def)

lemma deref_Some [simp]: "a < length h \<Longrightarrow> deref h (Some a) = ret (h ! a)"
  by (simp add: deref_def)

lemma deref_None [simp]: "deref h None = raise NilDereference"
  by (simp add: deref_def)

lemma index_in [simp]: "i < length xs \<Longrightarrow> index xs i = ret (xs ! i)"
  by (simp add: index_def)

lemma index_out [simp]: "\<not> i < length xs \<Longrightarrow> index xs i = raise IndexOutOfRange"
  by (simp add: index_def)

lemma store_in [simp]: "i < length xs \<Longrightarrow> store xs i v = ret (xs[i := v])"
  by (simp add: store_def)

lemma store_out [simp]: "\<not> i < length xs \<Longrightarrow> store xs i v = raise IndexOutOfRange"
  by (simp add: store_def)

lemma randomLevel_loop_ge: "lvl \<le> randomLevel_loop rnd lvl"
proof (induction rnd lvl rule: randomLevel_loop.induct)
  case (1 rnd lvl)
  show ?case
  proof (cases "rnd (lvl - 1) \<and> lvl < 32")
    case True
    with 1 have "lvl + 1 \<le> randomLevel_loop rnd (lvl + 1)" by simp
    with True show ?thesis by (subst randomLevel_loop.simps) simp
  next
    case False
    then show ?thesis by (subst randomLevel_loop.simps) simp
  qed
qed

lemma randomLevel_ge_1: "1 \<le> randomLevel rnd"
  unfolding randomLevel_def by (rule randomLevel_loop_ge)

section \<open>The comparator as an order\<close>

lemma before_irrefl: "\<not> before a a"
  by (cases a) (simp_all add: before_def compare_def strings_Compare_def)

lemma before_trans: "before a b \<Longrightarrow> before b c \<Longrightarrow> before a c"
  by (cases a; cases b; cases c)
     (auto simp: before_def compare_def strings_Compare_def split: if_splits)

lemma compare_pos_iff: "0 < compare a b \<longleftrightarrow> before b a"
  by (cases a; cases b)
     (auto simp: before_def compare_def strings_Compare_def split: if_splits)

lemma compare_refl: "compare a a = 0"
  by (cases a) (simp_all add: compare_def strings_Compare_def)

lemma compare_cases: "before a b \<or> compare a b = 0 \<or> before b a"
  using compare_pos_iff [of a b] by (auto simp: before_def)

lemma before_asym: "before a b \<Longrightarrow> \<not> before b a"
  using before_trans before_irrefl by blast

section \<open>Chains in the store\<close>

lemma lseg_append:
  "lseg h p (xs @ ys) q \<longleftrightarrow> (\<exists>m. lseg h p xs m \<and> lseg h m ys q)"
  by (induction xs arbitrary: p) auto

lemma lseg_bound: "lseg h p as q \<Longrightarrow> a \<in> set as \<Longrightarrow> a < length h"
  by (induction as arbitrary: p) auto

lemma lseg_frame:
  "lseg h p as q \<Longrightarrow> length h \<le> length h' \<Longrightarrow>
   (\<And>a. a \<in> set as \<Longrightarrow> forward (h' ! a) = forward (h ! a)) \<Longrightarrow> lseg h' p as q"
  by (induction as arbitrary: p) auto

lemma getfwd_cell:
  "a < length h \<Longrightarrow> forward (h ! a) \<noteq> [] \<Longrightarrow> getfwd h (Some a) 0 = ret (forward (h ! a) ! 0)"
  by (simp add: getfwd_def)

lemma advance_chain:
  "lseg h (Some c) (c # as) None \<Longrightarrow>
   advance h 0 k (Some c) = ret (Some (last (c # takeWhile (\<lambda>a. before (key (h ! a)) k) as)))"
proof (induction as arbitrary: c)
  case Nil
  then show ?case by (subst advance.simps) (simp add: getfwd_cell)
next
  case (Cons a as)
  from Cons.prems have c: "c < length h" "forward (h ! c) \<noteq> []" "forward (h ! c) ! 0 = Some a"
    and rest: "lseg h (Some a) (a # as) None" by auto
  from rest have a: "a < length h" by simp
  show ?case
  proof (cases "before (key (h ! a)) k")
    case True
    with c a Cons.IH [OF rest] show ?thesis
      by (subst advance.simps) (simp add: getfwd_cell before_def)
  next
    case False
    with c a show ?thesis
      by (subst advance.simps) (simp add: getfwd_cell before_def)
  qed
qed

lemma next_of_pred:
  "lseg h (Some c) (c # as) None \<Longrightarrow>
   getfwd h (Some (last (c # takeWhile P as))) 0 =
     ret (case dropWhile P as of [] \<Rightarrow> None | b # bs \<Rightarrow> Some b)"
proof (induction as arbitrary: c)
  case Nil
  then show ?case by (simp add: getfwd_cell)
next
  case (Cons a as)
  then show ?case by (cases "P a") (auto simp: getfwd_cell)
qed


lemma lseg_cell: "lseg h p as q \<Longrightarrow> a \<in> set as \<Longrightarrow> a < length h \<and> forward (h ! a) \<noteq> []"
  by (induction as arbitrary: p) auto

lemma repr_head_cell:
  assumes "repr s as"
  obtains a0 where "head s = Some a0" "a0 < length (heap s)" "forward (heap s ! a0) \<noteq> []"
    "lseg (heap s) (Some a0) (a0 # as) None" "a0 \<notin> set as" "distinct as" "level s = 1"
  using assms unfolding repr_def by auto

lemma repr_bound: "repr s as \<Longrightarrow> a \<in> set as \<Longrightarrow> a < length (heap s)"
  unfolding repr_def by (auto dest: lseg_bound)

lemma stop_at_subset: "b \<in> set (stop_at h k as) \<Longrightarrow> b \<in> set as"
  unfolding stop_at_def by (auto dest: set_dropWhileD)

lemma found_at_hd:
  assumes "found_at h k as"
  obtains b bs where "stop_at h k as = b # bs" "compare (key (h ! b)) k = 0" "b \<in> set as"
proof -
  from assms obtain b bs where s: "stop_at h k as = b # bs" and c: "compare (key (h ! b)) k = 0"
    unfolding found_at_def by (auto split: list.splits)
  from s have "b \<in> set (stop_at h k as)" by simp
  then have "b \<in> set as" by (rule stop_at_subset)
  with s c show ?thesis by (rule that)
qed

lemma pred_at_cell:
  assumes "repr s as" "head s = Some a0"
  shows "pred_at (heap s) k a0 as < length (heap s)"
    and "forward (heap s ! pred_at (heap s) k a0 as) \<noteq> []"
    and "pred_at (heap s) k a0 as \<in> set (a0 # as)"
proof -
  let ?P = "\<lambda>a. before (key (heap s ! a)) k"
  from assms have l: "lseg (heap s) (Some a0) (a0 # as) None" unfolding repr_def by auto
  have "last (a0 # takeWhile ?P as) \<in> set (a0 # takeWhile ?P as)" by (rule last_in_set) simp
  then have m: "last (a0 # takeWhile ?P as) \<in> set (a0 # as)" by (auto dest: set_takeWhileD)
  then show "pred_at (heap s) k a0 as \<in> set (a0 # as)" by (simp only: pred_at_def)
  from lseg_cell [OF l m]
  show "pred_at (heap s) k a0 as < length (heap s)"
    and "forward (heap s ! pred_at (heap s) k a0 as) \<noteq> []"
    unfolding pred_at_def by blast+
qed

text \<open>The outcome of the traversal and of the test on the node behind it.\<close>

lemma traverse_repr:
  assumes r: "repr s as" and h: "head s = Some a0"
  shows "descend (heap s) k (level s) (head s) (replicate (level s) None) =
           ret (Some (pred_at (heap s) k a0 as), [Some (pred_at (heap s) k a0 as)])"
    and "descend_search (heap s) k (level s) (head s) = ret (Some (pred_at (heap s) k a0 as))"
    and "getfwd (heap s) (Some (pred_at (heap s) k a0 as)) 0 =
           ret (case stop_at (heap s) k as of [] \<Rightarrow> None | b # bs \<Rightarrow> Some b)"
    and "hit (heap s) (case stop_at (heap s) k as of [] \<Rightarrow> None | b # bs \<Rightarrow> Some b) k =
           ret (found_at (heap s) k as)"
proof -
  from r h have l: "lseg (heap s) (Some a0) (a0 # as) None" and lv: "level s = 1"
    unfolding repr_def by auto
  show "descend (heap s) k (level s) (head s) (replicate (level s) None) =
           ret (Some (pred_at (heap s) k a0 as), [Some (pred_at (heap s) k a0 as)])"
    using advance_chain [OF l, of k] by (simp add: lv h pred_at_def)
  show "descend_search (heap s) k (level s) (head s) = ret (Some (pred_at (heap s) k a0 as))"
    using advance_chain [OF l, of k] by (simp add: lv h pred_at_def)
  show "getfwd (heap s) (Some (pred_at (heap s) k a0 as)) 0 =
           ret (case stop_at (heap s) k as of [] \<Rightarrow> None | b # bs \<Rightarrow> Some b)"
    unfolding pred_at_def stop_at_def by (rule next_of_pred [OF l])
  show "hit (heap s) (case stop_at (heap s) k as of [] \<Rightarrow> None | b # bs \<Rightarrow> Some b) k =
           ret (found_at (heap s) k as)"
  proof (cases "stop_at (heap s) k as")
    case Nil
    then show ?thesis by (simp add: hit_def found_at_def)
  next
    case (Cons b bs)
    then have "b \<in> set (stop_at (heap s) k as)" by simp
    then have "b \<in> set as" by (rule stop_at_subset)
    with r have "b < length (heap s)" by (rule repr_bound)
    with Cons show ?thesis by (simp add: hit_def found_at_def)
  qed
qed

lemma extend_out: "length update \<le> i \<Longrightarrow> 0 < n \<Longrightarrow> extend update h0 i n = raise IndexOutOfRange"
  by (cases n) simp_all

lemma splice_one:
  assumes "u < length h" "forward (h ! u) \<noteq> []"
  shows "splice (h @ [\<lparr>key = k, val = v, forward = replicate 1 None\<rparr>]) [Some u]
           (Some (length h)) 0 1 = ret (link_new h u k v)"
  using assms by (simp add: getfwd_def setfwd_def nth_append link_new_def)

lemma unlink_one:
  assumes "u < length h" "forward (h ! u) \<noteq> []" "forward (h ! u) ! 0 = Some d"
    "d < length h" "forward (h ! d) \<noteq> []"
  shows "unlink h [Some u] (Some d) 0 1 = ret (unlink_cell h u d)"
  using assms by (simp add: getfwd_def setfwd_def unlink_cell_def)

section \<open>What the three operations do on a represented list\<close>

lemma Insert_found:
  assumes r: "repr s as" and k: "k \<noteq> NilV" and f: "found_at (heap s) k as"
  shows "Insert k v rnd s = ret (None, s\<lparr>heap :=
           (heap s)[hd (stop_at (heap s) k as) := (heap s ! hd (stop_at (heap s) k as))\<lparr>val := v\<rparr>]\<rparr>)"
proof -
  from r obtain a0 where h: "head s = Some a0" by (rule repr_head_cell)
  from f obtain b bs where st: "stop_at (heap s) k as = b # bs" and b: "b \<in> set as"
    by (rule found_at_hd)
  from r b have bl: "b < length (heap s)" by (rule repr_bound)
  have sv: "setval (heap s) (Some b) v = ret ((heap s)[b := (heap s ! b)\<lparr>val := v\<rparr>])"
    by (simp add: setval_def bl)
  have "hit (heap s) (Some b) k = ret True"
    using traverse_repr(4) [OF r h, of k] f by (simp add: st)
  then show ?thesis
    unfolding Insert_def
    by (simp only: k if_False traverse_repr(1,3) [OF r h] bnd_ret prod.case st list.case
        if_True sv list.sel)
qed

lemma Insert_taller:
  assumes r: "repr s as" and k: "k \<noteq> NilV" and f: "\<not> found_at (heap s) k as"
    and lvl: "1 < randomLevel rnd"
  shows "Insert k v rnd s = raise IndexOutOfRange"
proof -
  from r obtain a0 where h: "head s = Some a0" and lv: "level s = 1" by (rule repr_head_cell)
  note t = traverse_repr [OF r h, of k]
  have "Insert k v rnd s =
      bnd (bnd (extend [Some (pred_at (heap s) k a0 as)] (head s) (level s)
                 (randomLevel rnd - level s)) (\<lambda>update. ret (update, s\<lparr>level := randomLevel rnd\<rparr>)))
        (\<lambda>(update, s).
           bnd (splice (heap s @ [\<lparr>key = k, val = v, forward = replicate (randomLevel rnd) None\<rparr>])
                  update (Some (length (heap s))) 0 (randomLevel rnd))
             (\<lambda>h. ret (None, s\<lparr>heap := h, slength := slength s + 1\<rparr>)))"
    unfolding Insert_def using lvl
    apply (simp only: k if_False t bnd_ret prod.case f Let_def)
    apply (simp only: lv if_True)
    done
  with lvl show ?thesis by (simp add: lv extend_out)
qed

lemma Insert_new:
  assumes r: "repr s as" and h: "head s = Some a0" and k: "k \<noteq> NilV"
    and f: "\<not> found_at (heap s) k as" and lvl: "randomLevel rnd = 1"
  shows "Insert k v rnd s = ret (None, s\<lparr>heap := link_new (heap s) (pred_at (heap s) k a0 as) k v,
           slength := slength s + 1\<rparr>)"
proof -
  from r have lv: "level s = 1" by (rule repr_head_cell)
  note t = traverse_repr [OF r h, of k]
  note c = pred_at_cell [OF r h, of k]
  show ?thesis
    unfolding Insert_def
    apply (simp only: k if_False t bnd_ret prod.case f Let_def)
    apply (simp only: lv lvl less_irrefl if_False bnd_ret prod.case splice_one [OF c(1,2)])
    done
qed

lemma Search_repr:
  assumes r: "repr s as" and k: "k \<noteq> NilV"
  shows "Search k s = (if found_at (heap s) k as
           then ret (val (heap s ! hd (stop_at (heap s) k as)), None)
           else ret (NilV, Some NotFound))"
proof -
  from r obtain a0 where h: "head s = Some a0" by (rule repr_head_cell)
  note t = traverse_repr [OF r h, of k]
  show ?thesis
  proof (cases "found_at (heap s) k as")
    case True
    then obtain b bs where st: "stop_at (heap s) k as = b # bs" and b: "b \<in> set as"
      by (rule found_at_hd)
    from r b have bl: "b < length (heap s)" by (rule repr_bound)
    from True show ?thesis
      unfolding Search_def using t(4)
      by (simp only: k if_False t(2,3) bnd_ret st list.case if_True list.sel deref_Some [OF bl])
  next
    case False
    then show ?thesis
      unfolding Search_def
      by (simp only: k if_False t bnd_ret if_False)
  qed
qed

lemma Delete_found:
  assumes r: "repr s as" and h: "head s = Some a0" and k: "k \<noteq> NilV"
    and f: "found_at (heap s) k as"
  shows "Delete k s = ret (None, s\<lparr>heap :=
           unlink_cell (heap s) (pred_at (heap s) k a0 as) (hd (stop_at (heap s) k as)),
           level := 1, slength := slength s - 1\<rparr>)"
proof -
  from r have lv: "level s = 1" by (rule repr_head_cell)
  from r h have l: "lseg (heap s) (Some a0) (a0 # as) None" unfolding repr_def by auto
  note t = traverse_repr [OF r h, of k]
  note c = pred_at_cell [OF r h, of k]
  from f obtain b bs where st: "stop_at (heap s) k as = b # bs" and b: "b \<in> set as"
    by (rule found_at_hd)
  from l b have bc: "b < length (heap s)" "forward (heap s ! b) \<noteq> []"
    using lseg_cell [OF l, of b] by auto
  from t(3) c have nx: "forward (heap s ! pred_at (heap s) k a0 as) ! 0 = Some b"
    by (simp add: getfwd_def st)
  have hb: "hit (heap s) (Some b) k = ret True"
    using t(4) f by (simp add: st)
  have sh: "shrink h' (head s) 1 = ret 1" for h' by simp
  show ?thesis
    unfolding Delete_def
    apply (simp only: k if_False t(1,3) bnd_ret prod.case st list.case hb if_True)
    apply (simp only: lv unlink_one [OF c(1,2) nx bc] sh list.sel bnd_ret)
    done
qed

lemma Delete_missing:
  assumes r: "repr s as" and k: "k \<noteq> NilV" and f: "\<not> found_at (heap s) k as"
  shows "Delete k s = ret (Some NotFound, s)"
proof -
  from r obtain a0 where h: "head s = Some a0" by (rule repr_head_cell)
  note t = traverse_repr [OF r h, of k]
  show ?thesis
    unfolding Delete_def
    by (simp only: k if_False t bnd_ret prod.case f)
qed

section \<open>Linking and unlinking a node\<close>

lemma link_new_length: "length (link_new h u k v) = Suc (length h)"
  by (simp add: link_new_def)

lemma link_new_other: "a < length h \<Longrightarrow> a \<noteq> u \<Longrightarrow> link_new h u k v ! a = h ! a"
  by (simp add: link_new_def nth_append)

lemma link_new_pred:
  "u < length h \<Longrightarrow> link_new h u k v ! u = (h ! u)\<lparr>forward := (forward (h ! u))[0 := Some (length h)]\<rparr>"
  by (simp add: link_new_def nth_append)

lemma link_new_cell:
  "u < length h \<Longrightarrow> link_new h u k v ! length h = \<lparr>key = k, val = v, forward = [forward (h ! u) ! 0]\<rparr>"
  by (simp add: link_new_def nth_append)

lemma link_new_key: "a < length h \<Longrightarrow> key (link_new h u k v ! a) = key (h ! a)"
  by (cases "a = u") (simp_all add: link_new_other link_new_pred)

lemma link_new_val: "a < length h \<Longrightarrow> val (link_new h u k v ! a) = val (h ! a)"
  by (cases "a = u") (simp_all add: link_new_other link_new_pred)

lemma lseg_link_new:
  assumes l: "lseg h p (xs @ u # ys) None" and d: "distinct (xs @ u # ys)"
  shows "lseg (link_new h u k v) p (xs @ u # length h # ys) None"
proof -
  let ?h = "link_new h u k v"
  from l obtain m where x: "lseg h p xs m" and y: "lseg h m (u # ys) None"
    unfolding lseg_append by blast
  from y have m: "m = Some u" and u: "u < length h" "forward (h ! u) \<noteq> []"
    and t: "lseg h (forward (h ! u) ! 0) ys None" by auto
  have len: "length h \<le> length ?h" by (simp add: link_new_length)
  have fx: "forward (?h ! a) = forward (h ! a)" if "a \<in> set xs" for a
  proof -
    from that d have "a \<noteq> u" by auto
    with lseg_bound [OF x that] show ?thesis by (simp add: link_new_other)
  qed
  have fy: "forward (?h ! a) = forward (h ! a)" if "a \<in> set ys" for a
  proof -
    from that d have "a \<noteq> u" by auto
    with lseg_bound [OF t that] show ?thesis by (simp add: link_new_other)
  qed
  from x len fx have 1: "lseg ?h p xs (Some u)" unfolding m by (rule lseg_frame)
  from t len fy have 2: "lseg ?h (forward (h ! u) ! 0) ys None" by (rule lseg_frame)
  from u 2 have 3: "lseg ?h (Some u) (u # length h # ys) None"
    by (simp add: link_new_length link_new_pred link_new_cell)
  from 1 3 show ?thesis unfolding lseg_append by blast
qed

lemma unlink_cell_other: "a \<noteq> u \<Longrightarrow> unlink_cell h u d ! a = h ! a"
  by (simp add: unlink_cell_def)

lemma unlink_cell_key: "key (unlink_cell h u d ! a) = key (h ! a)"
  by (cases "a = u"; cases "u < length h") (simp_all add: unlink_cell_def list_update_beyond)

lemma unlink_cell_val: "val (unlink_cell h u d ! a) = val (h ! a)"
  by (cases "a = u"; cases "u < length h") (simp_all add: unlink_cell_def list_update_beyond)

lemma lseg_unlink_cell:
  assumes l: "lseg h p (xs @ u # d # ys) None" and ds: "distinct (xs @ u # d # ys)"
  shows "lseg (unlink_cell h u d) p (xs @ u # ys) None"
proof -
  let ?h = "unlink_cell h u d"
  from l obtain m where x: "lseg h p xs m" and y: "lseg h m (u # d # ys) None"
    unfolding lseg_append by blast
  from y have m: "m = Some u" and u: "u < length h" "forward (h ! u) \<noteq> []"
    and dd: "d < length h" "forward (h ! d) \<noteq> []"
    and t: "lseg h (forward (h ! d) ! 0) ys None" by auto
  have len: "length h \<le> length ?h" by (simp add: unlink_cell_def)
  have fx: "forward (?h ! a) = forward (h ! a)" if "a \<in> set xs" for a
  proof -
    from that ds have "a \<noteq> u" by auto
    then show ?thesis by (simp add: unlink_cell_other)
  qed
  have fy: "forward (?h ! a) = forward (h ! a)" if "a \<in> set ys" for a
  proof -
    from that ds have "a \<noteq> u" by auto
    then show ?thesis by (simp add: unlink_cell_other)
  qed
  from x len fx have 1: "lseg ?h p xs (Some u)" unfolding m by (rule lseg_frame)
  from t len fy have 2: "lseg ?h (forward (h ! d) ! 0) ys None" by (rule lseg_frame)
  from u 2 have 3: "lseg ?h (Some u) (u # ys) None"
    by (simp add: unlink_cell_def)
  from 1 3 show ?thesis unfolding lseg_append by blast
qed

lemma keys_pairs: "map fst (pairs h as) = map (\<lambda>a. key (h ! a)) as"
  by (simp add: pairs_def comp_def)

lemma sorted_map_append:
  assumes "sorted_wrt before (map f (xs @ ys))"
  shows "sorted_wrt before (map f xs)" and "sorted_wrt before (map f ys)"
    and "\<And>x y. x \<in> set xs \<Longrightarrow> y \<in> set ys \<Longrightarrow> before (f x) (f y)"
  using assms unfolding map_append sorted_wrt_append by auto

lemma sorted_link:
  assumes s: "sorted_wrt before (map f as)"
    and nf: "case dropWhile (\<lambda>a. before (f a) k) as of [] \<Rightarrow> True | b # bs \<Rightarrow> compare (f b) k \<noteq> 0"
  shows "sorted_wrt before
           (map f (takeWhile (\<lambda>a. before (f a) k) as) @ k # map f (dropWhile (\<lambda>a. before (f a) k) as))"
proof -
  let ?P = "\<lambda>a. before (f a) k"
  let ?pre = "takeWhile ?P as" and ?post = "dropWhile ?P as"
  have sp: "sorted_wrt before (map f (?pre @ ?post))" using s by simp
  note pre = sorted_map_append(1) [OF sp] and post = sorted_map_append(2) [OF sp]
    and cross = sorted_map_append(3) [OF sp]
  have below: "before (f x) k" if "x \<in> set ?pre" for x
    using that by (auto dest: set_takeWhileD)
  have above: "before k (f y)" if "y \<in> set ?post" for y
  proof (cases ?post)
    case Nil
    with that show ?thesis by simp
  next
    case (Cons b bs)
    then have "?post \<noteq> []" by simp
    then have "\<not> ?P (hd ?post)" by (rule hd_dropWhile)
    with Cons have nb: "\<not> before (f b) k" by simp
    from nf Cons have "compare (f b) k \<noteq> 0" by simp
    with nb have kb: "before k (f b)" using compare_cases [of "f b" k] by blast
    show ?thesis
    proof (cases "y = b")
      case True
      with kb show ?thesis by simp
    next
      case False
      with that Cons have "y \<in> set bs" by simp
      with post Cons have "before (f b) (f y)" by auto
      with kb show ?thesis by (rule before_trans)
    qed
  qed
  have "sorted_wrt before (k # map f ?post)" using post above by simp
  moreover have "\<forall>x\<in>set (map f ?pre). \<forall>y\<in>set (k # map f ?post). before x y"
    using below cross by auto
  ultimately show ?thesis
    unfolding sorted_wrt_append using pre by blast
qed


lemma pairs_append: "pairs h (xs @ ys) = pairs h xs @ pairs h ys"
  by (simp add: pairs_def)

lemma pairs_Cons: "pairs h (a # as) = (key (h ! a), val (h ! a)) # pairs h as"
  by (simp add: pairs_def)

lemma pairs_cong:
  "(\<And>a. a \<in> set as \<Longrightarrow> key (h' ! a) = key (h ! a) \<and> val (h' ! a) = val (h ! a)) \<Longrightarrow>
   pairs h' as = pairs h as"
  by (simp add: pairs_def)

lemma chain_split:
  fixes P :: "nat \<Rightarrow> bool"
  shows "a0 # as = butlast (a0 # takeWhile P as) @ last (a0 # takeWhile P as) # dropWhile P as"
proof -
  have "butlast (a0 # takeWhile P as) @ [last (a0 # takeWhile P as)] = a0 # takeWhile P as"
    by (rule append_butlast_last_id) simp
  then have "butlast (a0 # takeWhile P as) @ last (a0 # takeWhile P as) # dropWhile P as =
      (a0 # takeWhile P as) @ dropWhile P as"
    by (metis append.assoc append_Cons append_Nil)
  then show ?thesis by simp
qed

lemma chain_rejoin:
  fixes P :: "nat \<Rightarrow> bool"
  shows "butlast (a0 # takeWhile P as) @ last (a0 # takeWhile P as) # ys = a0 # takeWhile P as @ ys"
proof -
  have "butlast (a0 # takeWhile P as) @ [last (a0 # takeWhile P as)] = a0 # takeWhile P as"
    by (rule append_butlast_last_id) simp
  then show ?thesis
    by (metis append.assoc append_Cons append_Nil)
qed

lemma not_found_at:
  "\<not> found_at h k as \<longleftrightarrow>
     (case dropWhile (\<lambda>a. before (key (h ! a)) k) as of [] \<Rightarrow> True
      | b # bs \<Rightarrow> compare (key (h ! b)) k \<noteq> 0)"
  by (cases "dropWhile (\<lambda>a. before (key (h ! a)) k) as") (simp_all only: found_at_def stop_at_def list.case simp_thms)

lemma repr_link:
  fixes v :: iface
  assumes r: "repr s as" and h: "head s = Some a0" and k: "k \<noteq> NilV"
    and nf: "\<not> found_at (heap s) k as"
  defines "pre \<equiv> takeWhile (\<lambda>a. before (key (heap s ! a)) k) as"
  defines "post \<equiv> stop_at (heap s) k as"
  defines "h' \<equiv> link_new (heap s) (pred_at (heap s) k a0 as) k v"
  shows "repr (s\<lparr>heap := h', slength := slength s + 1\<rparr>) (pre @ length (heap s) # post)"
    and "pairs h' (pre @ length (heap s) # post) = pairs (heap s) pre @ (k, v) # pairs (heap s) post"
proof -
  let ?h = "heap s"
  let ?P = "\<lambda>a. before (key (?h ! a)) k"
  let ?u = "pred_at ?h k a0 as"
  let ?xs = "butlast (a0 # pre)"
  let ?nn = "length ?h"
  from r h have l: "lseg ?h (Some a0) (a0 # as) None" and d: "distinct (a0 # as)"
    and lv: "level s = 1" and len: "slength s = int (length as)"
    and so: "sorted_wrt before (map (\<lambda>a. key (?h ! a)) as)"
    and nn: "NilV \<notin> set (map (\<lambda>a. key (?h ! a)) as)"
    unfolding repr_def keys_pairs by auto
  have parts: "?xs @ ?u # post = a0 # as"
    unfolding pre_def post_def pred_at_def stop_at_def by (rule chain_split [symmetric])
  have join: "?xs @ ?u # ?nn # post = a0 # pre @ ?nn # post"
    unfolding pre_def pred_at_def by (rule chain_rejoin)
  have as: "as = pre @ post" unfolding pre_def post_def stop_at_def by simp
  note u = pred_at_cell [OF r h, of k]
  have bound: "a < ?nn" if "a \<in> set (a0 # as)" for a
    using lseg_bound [OF l that] .
  have old: "key (h' ! a) = key (?h ! a) \<and> val (h' ! a) = val (?h ! a)" if "a \<in> set as" for a
    using bound [of a] that unfolding h'_def by (simp add: link_new_key link_new_val)
  have new: "key (h' ! ?nn) = k" "val (h' ! ?nn) = v"
    unfolding h'_def by (simp_all add: link_new_cell [OF u(1)])
  from l have l': "lseg ?h (Some a0) (?xs @ ?u # post) None" by (simp only: parts)
  from d have d': "distinct (?xs @ ?u # post)" by (simp only: parts)
  have "lseg h' (Some a0) (?xs @ ?u # ?nn # post) None"
    unfolding h'_def using l' d' by (rule lseg_link_new)
  then have 1: "lseg h' (Some a0) (a0 # pre @ ?nn # post) None" by (simp only: join)
  have fresh: "?nn \<notin> set (a0 # as)" using bound by blast
  from d fresh have 2: "distinct (a0 # pre @ ?nn # post)"
    unfolding as by auto
  have p1: "pairs h' pre = pairs ?h pre"
    by (rule pairs_cong) (rule old, simp add: as)
  have p2: "pairs h' post = pairs ?h post"
    by (rule pairs_cong) (rule old, simp add: as)
  show 3: "pairs h' (pre @ ?nn # post) = pairs ?h pre @ (k, v) # pairs ?h post"
    by (simp add: pairs_append pairs_Cons p1 p2 new)
  from nf have nf': "case dropWhile ?P as of [] \<Rightarrow> True | b # bs \<Rightarrow> compare (key (?h ! b)) k \<noteq> 0"
    by (simp only: not_found_at)
  have "sorted_wrt before (map (\<lambda>a. key (?h ! a)) pre @ k # map (\<lambda>a. key (?h ! a)) post)"
    unfolding pre_def post_def stop_at_def using so nf' by (rule sorted_link)
  then have 4: "sorted_wrt before (map fst (pairs h' (pre @ ?nn # post)))"
    unfolding 3 by (simp add: keys_pairs)
  from nn have "NilV \<notin> set (map (\<lambda>a. key (?h ! a)) pre) \<union> set (map (\<lambda>a. key (?h ! a)) post)"
    unfolding as by auto
  with k have 5: "NilV \<notin> set (map fst (pairs h' (pre @ ?nn # post)))"
    unfolding 3 by (auto simp: keys_pairs)
  have 6: "slength s + 1 = int (length (pre @ ?nn # post))"
    unfolding len as by simp
  show "repr (s\<lparr>heap := h', slength := slength s + 1\<rparr>) (pre @ ?nn # post)"
    unfolding repr_def using h 1 2 lv 4 5 6 by simp
qed

section \<open>The operations keep the representation\<close>

lemma sorted_drop_middle:
  "sorted_wrt R (xs @ b # ys) \<Longrightarrow> sorted_wrt R (xs @ ys)"
  by (auto simp: sorted_wrt_append)

lemma repr_unlink:
  fixes k :: iface
  assumes r: "repr s as" and h: "head s = Some a0" and f: "found_at (heap s) k as"
  defines "pre \<equiv> takeWhile (\<lambda>a. before (key (heap s ! a)) k) as"
  defines "post \<equiv> tl (stop_at (heap s) k as)"
  defines "h' \<equiv> unlink_cell (heap s) (pred_at (heap s) k a0 as) (hd (stop_at (heap s) k as))"
  shows "repr (s\<lparr>heap := h', level := 1, slength := slength s - 1\<rparr>) (pre @ post)"
    and "pairs h' (pre @ post) = pairs (heap s) pre @ pairs (heap s) post"
proof -
  let ?h = "heap s"
  let ?u = "pred_at ?h k a0 as"
  let ?xs = "butlast (a0 # pre)"
  from f obtain b bs where st: "stop_at ?h k as = b # bs" by (rule found_at_hd)
  then have post: "post = bs" and hd: "hd (stop_at ?h k as) = b" by (simp_all add: post_def)
  from r h have l: "lseg ?h (Some a0) (a0 # as) None" and d: "distinct (a0 # as)"
    and lv: "level s = 1" and len: "slength s = int (length as)"
    and so: "sorted_wrt before (map (\<lambda>a. key (?h ! a)) as)"
    and nn: "NilV \<notin> set (map (\<lambda>a. key (?h ! a)) as)"
    unfolding repr_def keys_pairs by auto
  have "?xs @ ?u # stop_at ?h k as = a0 # as"
    unfolding pre_def pred_at_def stop_at_def by (rule chain_split [symmetric])
  then have parts: "?xs @ ?u # b # post = a0 # as" by (simp only: st post)
  have join: "?xs @ ?u # post = a0 # pre @ post"
    unfolding pre_def pred_at_def by (rule chain_rejoin)
  have "as = pre @ stop_at ?h k as" unfolding pre_def stop_at_def by simp
  then have as: "as = pre @ b # post" by (simp only: st post)
  from l have l': "lseg ?h (Some a0) (?xs @ ?u # b # post) None" by (simp only: parts)
  from d have d': "distinct (?xs @ ?u # b # post)" by (simp only: parts)
  have "lseg h' (Some a0) (?xs @ ?u # post) None"
    unfolding h'_def hd using l' d' by (rule lseg_unlink_cell)
  then have 1: "lseg h' (Some a0) (a0 # pre @ post) None" by (simp only: join)
  from d have 2: "distinct (a0 # pre @ post)" unfolding as by auto
  show 3: "pairs h' (pre @ post) = pairs ?h pre @ pairs ?h post"
    unfolding h'_def by (simp add: pairs_def unlink_cell_key unlink_cell_val)
  from so have "sorted_wrt before (map (\<lambda>a. key (?h ! a)) pre @ map (\<lambda>a. key (?h ! a)) post)"
    unfolding as by (simp add: sorted_drop_middle)
  then have 4: "sorted_wrt before (map fst (pairs h' (pre @ post)))"
    unfolding 3 by (simp add: keys_pairs)
  from nn have 5: "NilV \<notin> set (map fst (pairs h' (pre @ post)))"
    unfolding 3 as by (auto simp: keys_pairs)
  have 6: "slength s - 1 = int (length (pre @ post))"
    unfolding len as by simp
  show "repr (s\<lparr>heap := h', level := 1, slength := slength s - 1\<rparr>) (pre @ post)"
    unfolding repr_def using h 1 2 4 5 6 by simp
qed

lemma repr_setval:
  fixes b :: nat and v :: iface
  assumes r: "repr s as"
  defines "h' \<equiv> (heap s)[b := (heap s ! b)\<lparr>val := v\<rparr>]"
  shows "repr (s\<lparr>heap := h'\<rparr>) as"
    and "pairs h' as = map (\<lambda>a. (key (heap s ! a), if a = b then v else val (heap s ! a))) as"
proof -
  let ?h = "heap s"
  from r obtain a0 where h: "head s = Some a0" by (rule repr_head_cell)
  from r h have l: "lseg ?h (Some a0) (a0 # as) None" and d: "distinct (a0 # as)"
    and lv: "level s = 1" and len: "slength s = int (length as)"
    and so: "sorted_wrt before (map (\<lambda>a. key (?h ! a)) as)"
    and nn: "NilV \<notin> set (map (\<lambda>a. key (?h ! a)) as)"
    unfolding repr_def keys_pairs by auto
  have fw: "forward (h' ! a) = forward (?h ! a)" for a
    unfolding h'_def by (cases "a = b"; cases "b < length ?h") (simp_all add: list_update_beyond)
  have ky: "key (h' ! a) = key (?h ! a)" for a
    unfolding h'_def by (cases "a = b"; cases "b < length ?h") (simp_all add: list_update_beyond)
  have vl: "val (h' ! a) = (if a = b then v else val (?h ! a))" if "a < length ?h" for a
    unfolding h'_def using that by (cases "a = b") simp_all
  have "length ?h \<le> length h'" by (simp add: h'_def)
  with l have 1: "lseg h' (Some a0) (a0 # as) None" by (rule lseg_frame) (rule fw)
  have ks: "map (\<lambda>a. key (h' ! a)) as = map (\<lambda>a. key (?h ! a)) as" by (simp add: ky)
  show "pairs h' as = map (\<lambda>a. (key (?h ! a), if a = b then v else val (?h ! a))) as"
    unfolding pairs_def using repr_bound [OF r] by (simp add: ky vl)
  show "repr (s\<lparr>heap := h'\<rparr>) as"
    unfolding repr_def keys_pairs using h 1 d lv len so nn by (simp add: ks)
qed

lemma repr_new: "repr (NewSkipList kt) []"
  by (simp add: repr_def NewSkipList_def pairs_def)

lemma Clear_repr:
  assumes r: "repr s as"
  obtains s' where "Clear s = ret s'" "repr s' []" "keyType s' = keyType s"
proof -
  from r obtain a0 where h: "head s = Some a0" and a0: "a0 < length (heap s)"
    by (rule repr_head_cell)
  let ?s = "s\<lparr>heap := (heap s)[a0 := (heap s ! a0)\<lparr>forward := replicate DefaultMaxLevel None\<rparr>],
              level := 1, slength := 0\<rparr>"
  have 1: "Clear s = ret ?s" by (simp add: Clear_def h a0)
  have 2: "repr ?s []" using h a0 by (simp add: repr_def pairs_def DefaultMaxLevel_def)
  from 1 2 show ?thesis by (rule that) simp
qed

lemma randomLevel_cases: "randomLevel rnd = 1 \<or> 1 < randomLevel rnd"
  using randomLevel_ge_1 [of rnd] by arith

text \<open>Every list the package builds is a well-formed chain on one level.\<close>

lemma reachable_repr: "reachable s \<Longrightarrow> \<exists>as. repr s as"
proof (induction rule: reachable.induct)
  case (r_new kt)
  show ?case using repr_new by blast
next
  case (r_insert s k v rnd e s')
  then obtain as where r: "repr s as" by blast
  from r obtain a0 where h: "head s = Some a0" by (rule repr_head_cell)
  show ?case
  proof (cases "k = NilV")
    case True
    with r_insert.hyps(2) have "s' = s" by (simp add: Insert_def)
    with r show ?thesis by blast
  next
    case k: False
    show ?thesis
    proof (cases "found_at (heap s) k as")
      case True
      from r_insert.hyps(2) Insert_found [OF r k True, of v rnd] repr_setval(1) [OF r]
      show ?thesis by auto
    next
      case False
      from r_insert.hyps(2) Insert_taller [OF r k False, of rnd v] randomLevel_cases [of rnd]
      have lvl: "randomLevel rnd = 1" by auto
      from r_insert.hyps(2) Insert_new [OF r h k False lvl, of v] repr_link(1) [OF r h k False]
      show ?thesis by auto
    qed
  qed
next
  case (r_delete s k e s')
  then obtain as where r: "repr s as" by blast
  from r obtain a0 where h: "head s = Some a0" by (rule repr_head_cell)
  show ?case
  proof (cases "k = NilV")
    case True
    with r_delete.hyps(2) have "s' = s" by (simp add: Delete_def)
    with r show ?thesis by blast
  next
    case k: False
    show ?thesis
    proof (cases "found_at (heap s) k as")
      case True
      from r_delete.hyps(2) Delete_found [OF r h k True] repr_unlink(1) [OF r h True]
      show ?thesis by auto
    next
      case False
      from r_delete.hyps(2) Delete_missing [OF r k False] r show ?thesis by auto
    qed
  qed
next
  case (r_clear s s')
  then obtain as where r: "repr s as" by blast
  from r obtain t where "Clear s = ret t" "repr t []" by (rule Clear_repr)
  with r_clear.hyps(2) show ?case by auto
qed

section \<open>The scans of level 0\<close>

lemma iterate_chain:
  "lseg (heap s) (Some c) (c # as) None \<Longrightarrow>
   iterate \<lparr>list = s, node = Some c, isHead = b\<rparr> acc = ret (acc @ pairs (heap s) as)"
proof (induction as arbitrary: c b acc)
  case Nil
  then show ?case
    by (subst iterate.simps) (simp add: Next_def getfwd_cell pairs_def)
next
  case (Cons a as)
  from Cons.prems have c: "c < length (heap s)" "forward (heap s ! c) \<noteq> []"
    "forward (heap s ! c) ! 0 = Some a" and rest: "lseg (heap s) (Some a) (a # as) None" by auto
  from rest have a: "a < length (heap s)" by simp
  from c a show ?case
    by (subst iterate.simps)
       (simp add: Next_def getfwd_cell Key_def Value_def Cons.IH [OF rest] pairs_def)
qed

lemma contents_repr:
  assumes "repr s as"
  shows "contents s = ret (pairs (heap s) as)"
proof -
  from assms obtain a0 where "head s = Some a0" "lseg (heap s) (Some a0) (a0 # as) None"
    by (rule repr_head_cell)
  then show ?thesis
    using iterate_chain [of s a0 as True "[]"] by (simp add: contents_def Iterator_def)
qed

lemma keys_loop_chain:
  "lseg h p as None \<Longrightarrow> keys_loop h p acc = ret (acc @ map (\<lambda>a. key (h ! a)) as)"
proof (induction as arbitrary: p acc)
  case Nil
  then show ?case by (subst keys_loop.simps) simp
next
  case (Cons a as)
  then show ?case by (subst keys_loop.simps) simp
qed

lemma scan_chain:
  "lseg h p as None \<Longrightarrow> scan h 0 p acc = ret (acc @ map (\<lambda>a. key (h ! a)) as)"
proof (induction as arbitrary: p acc)
  case Nil
  then show ?case by (subst scan.simps) simp
next
  case (Cons a as)
  then show ?case by (subst scan.simps) simp
qed

lemma head_next:
  assumes "repr s as"
  obtains p where "getfwd (heap s) (head s) 0 = ret p" "lseg (heap s) p as None"
proof -
  from assms obtain a0 where h: "head s = Some a0" and c: "a0 < length (heap s)"
    "forward (heap s ! a0) \<noteq> []" and l: "lseg (heap s) (Some a0) (a0 # as) None"
    by (rule repr_head_cell)
  from c have "getfwd (heap s) (head s) 0 = ret (forward (heap s ! a0) ! 0)"
    by (simp add: h getfwd_cell)
  moreover from l have "lseg (heap s) (forward (heap s ! a0) ! 0) as None" by simp
  ultimately show ?thesis by (rule that)
qed

lemma level_keys_repr:
  assumes "repr s as"
  shows "level_keys s 0 = ret (map fst (pairs (heap s) as))"
proof -
  from assms obtain p where "getfwd (heap s) (head s) 0 = ret p" "lseg (heap s) p as None"
    by (rule head_next)
  then show ?thesis by (simp add: level_keys_def scan_chain keys_pairs)
qed

section \<open>Keys that are present\<close>

lemma sorted_keys_distinct: "sorted_wrt before ks \<Longrightarrow> distinct ks"
proof (induction ks)
  case Nil
  show ?case by simp
next
  case (Cons k ks)
  then show ?case using before_irrefl by auto
qed

lemma present_stop:
  assumes so: "sorted_wrt before (map f (xs @ a # ys))" and k: "f a = k"
  shows "takeWhile (\<lambda>x. before (f x) k) (xs @ a # ys) = xs"
    and "dropWhile (\<lambda>x. before (f x) k) (xs @ a # ys) = a # ys"
proof -
  have b: "before (f x) k" if "x \<in> set xs" for x
    using sorted_map_append(3) [OF so that, of a] k by simp
  have n: "\<not> before (f a) k" using k before_irrefl by simp
  show "takeWhile (\<lambda>x. before (f x) k) (xs @ a # ys) = xs"
    using b n by (simp add: takeWhile_append2)
  show "dropWhile (\<lambda>x. before (f x) k) (xs @ a # ys) = a # ys"
    using b n by (simp add: dropWhile_append2)
qed


lemma found_at_iff:
  assumes so: "sorted_wrt before (map (\<lambda>a. key (h ! a)) as)"
  shows "found_at h k as \<longleftrightarrow> (\<exists>a\<in>set as. compare (key (h ! a)) k = 0)"
proof
  assume "found_at h k as"
  then show "\<exists>a\<in>set as. compare (key (h ! a)) k = 0"
    by (rule found_at_hd) blast
next
  let ?f = "\<lambda>a. key (h ! a)"
  let ?P = "\<lambda>a. before (?f a) k"
  assume "\<exists>a\<in>set as. compare (key (h ! a)) k = 0"
  then obtain a where a: "a \<in> set as" and c: "compare (?f a) k = 0" by blast
  from c have na: "\<not> ?P a" by (simp add: before_def)
  have sp: "sorted_wrt before (map ?f (takeWhile ?P as @ dropWhile ?P as))" using so by simp
  have "set as = set (takeWhile ?P as) \<union> set (dropWhile ?P as)"
    by (metis set_append takeWhile_dropWhile_id)
  with a have "a \<in> set (takeWhile ?P as) \<or> a \<in> set (dropWhile ?P as)" by blast
  moreover have "a \<notin> set (takeWhile ?P as)" using na by (blast dest: set_takeWhileD)
  ultimately have ap: "a \<in> set (dropWhile ?P as)" by blast
  then obtain b bs where st: "dropWhile ?P as = b # bs" by (cases "dropWhile ?P as") auto
  then have "dropWhile ?P as \<noteq> []" by simp
  then have "\<not> ?P (hd (dropWhile ?P as))" by (rule hd_dropWhile)
  with st have nb: "\<not> before (?f b) k" by simp
  have "compare (?f b) k = 0"
  proof (cases "a = b")
    case True
    with c show ?thesis by simp
  next
    case False
    with ap st have "a \<in> set bs" by simp
    with sorted_map_append(2) [OF sp] st have ba: "before (?f b) (?f a)" by auto
    show ?thesis
    proof (rule ccontr)
      assume "compare (?f b) k \<noteq> 0"
      with nb have "before k (?f b)" using compare_cases [of "?f b" k] by blast
      from this ba have "before k (?f a)" by (rule before_trans)
      then have "0 < compare (?f a) k" by (simp add: compare_pos_iff)
      with c show False by simp
    qed
  qed
  with st show "found_at h k as" by (simp add: found_at_def stop_at_def)
qed

lemma present:
  assumes r: "repr s as" and k: "k \<in> fst ` set (pairs (heap s) as)"
  obtains pre a post where "as = pre @ a # post" "key (heap s ! a) = k"
    "takeWhile (\<lambda>x. before (key (heap s ! x)) k) as = pre" "stop_at (heap s) k as = a # post"
    "found_at (heap s) k as" "k \<noteq> NilV"
proof -
  let ?f = "\<lambda>a. key (heap s ! a)"
  from r have so: "sorted_wrt before (map ?f as)" and nn0: "NilV \<notin> set (map ?f as)"
    unfolding repr_def keys_pairs by auto
  from nn0 have nn: "\<forall>a\<in>set as. ?f a \<noteq> NilV" by (metis image_eqI set_map)
  from k obtain a where a: "a \<in> set as" and ka: "?f a = k" by (auto simp: pairs_def)
  from a obtain pre post where as: "as = pre @ a # post" by (auto dest: split_list)
  note st = present_stop [OF so [unfolded as] ka]
  have 3: "takeWhile (\<lambda>x. before (?f x) k) as = pre" unfolding as by (rule st(1))
  have 4: "stop_at (heap s) k as = a # post" unfolding stop_at_def as by (rule st(2))
  have 5: "found_at (heap s) k as"
    unfolding found_at_def 4 using ka by (simp add: compare_refl)
  from nn a ka have 6: "k \<noteq> NilV" by auto
  from as ka 3 4 5 6 show ?thesis by (rule that)
qed

lemma update_other_keys:
  "k \<notin> fst ` set zs \<Longrightarrow> map (\<lambda>(k', v'). (k', if k' = k then v else v')) zs = zs"
  by (induction zs) auto

lemma update_at_key:
  assumes "distinct (map fst (xs @ (k, v0) # ys))"
  shows "map (\<lambda>(k', v'). (k', if k' = k then v else v')) (xs @ (k, v0) # ys) = xs @ (k, v) # ys"
  using assms by (simp add: update_other_keys)

lemma filter_other_keys: "k \<notin> fst ` set zs \<Longrightarrow> filter (\<lambda>kv. fst kv \<noteq> k) zs = zs"
  by (induction zs) auto

lemma remove_at_key:
  assumes "distinct (map fst (xs @ (k, v0) # ys))"
  shows "filter (\<lambda>kv. fst kv \<noteq> k) (xs @ (k, v0) # ys) = xs @ ys"
  using assms by (simp add: filter_other_keys)

lemma repr_distinct_keys: "repr s as \<Longrightarrow> distinct (map fst (pairs (heap s) as))"
  unfolding repr_def by (auto dest: sorted_keys_distinct)

text \<open>The operations on a represented list, in terms of its pairs.\<close>

lemma Insert_present:
  assumes r: "repr s as" and k: "k \<in> fst ` set (pairs (heap s) as)"
  obtains s' where "Insert k v rnd s = ret (None, s')" "repr s' as"
    "pairs (heap s') as = map (\<lambda>(k', v'). (k', if k' = k then v else v')) (pairs (heap s) as)"
    "slength s' = slength s" "length (heap s') = length (heap s)"
proof -
  from r k obtain pre a post where as: "as = pre @ a # post" and ka: "key (heap s ! a) = k"
    and st: "stop_at (heap s) k as = a # post" and f: "found_at (heap s) k as" and nn: "k \<noteq> NilV"
    by (rule present)
  let ?s = "s\<lparr>heap := (heap s)[a := (heap s ! a)\<lparr>val := v\<rparr>]\<rparr>"
  from Insert_found [OF r nn f, of v rnd] have 1: "Insert k v rnd s = ret (None, ?s)"
    by (simp add: st)
  have 2: "repr ?s as" by (rule repr_setval(1) [OF r])
  from r have "distinct as" by (rule repr_head_cell)
  then have na: "a \<notin> set pre" "a \<notin> set post" unfolding as by auto
  have "pairs (heap ?s) as = map (\<lambda>x. (key (heap s ! x), if x = a then v else val (heap s ! x))) as"
    using repr_setval(2) [OF r, of a v] by simp
  also have "\<dots> = pairs (heap s) pre @ (k, v) # pairs (heap s) post"
    unfolding as using na ka by (auto simp: pairs_def)
  also have "\<dots> = map (\<lambda>(k', v'). (k', if k' = k then v else v'))
      (pairs (heap s) pre @ (k, val (heap s ! a)) # pairs (heap s) post)"
    using repr_distinct_keys [OF r] unfolding as
    by (subst update_at_key) (simp_all add: pairs_append pairs_Cons ka)
  also have "pairs (heap s) pre @ (k, val (heap s ! a)) # pairs (heap s) post = pairs (heap s) as"
    unfolding as by (simp add: pairs_append pairs_Cons ka)
  finally have 3: "pairs (heap ?s) as =
      map (\<lambda>(k', v'). (k', if k' = k then v else v')) (pairs (heap s) as)" .
  from 1 2 3 show ?thesis by (rule that) simp_all
qed

lemma Search_present:
  assumes r: "repr s as" and kv: "(k, v) \<in> set (pairs (heap s) as)"
  shows "Search k s = ret (v, None)"
proof -
  from kv have "k \<in> fst ` set (pairs (heap s) as)" by force
  with r obtain pre a post where as: "as = pre @ a # post" and ka: "key (heap s ! a) = k"
    and st: "stop_at (heap s) k as = a # post" and f: "found_at (heap s) k as" and nn: "k \<noteq> NilV"
    by (rule present)
  from kv obtain a' where a': "a' \<in> set as" "key (heap s ! a') = k" "val (heap s ! a') = v"
    by (auto simp: pairs_def)
  have "inj_on (\<lambda>x. key (heap s ! x)) (set as)"
    using repr_distinct_keys [OF r] by (simp add: keys_pairs distinct_map)
  with a' ka have "a' = a" unfolding as by (auto dest: inj_onD)
  with a' f st show ?thesis by (simp add: Search_repr [OF r nn])
qed

lemma Delete_present:
  assumes r: "repr s as" and k: "k \<in> fst ` set (pairs (heap s) as)"
  obtains s' as' where "Delete k s = ret (None, s')" "repr s' as'"
    "pairs (heap s') as' = filter (\<lambda>kv. fst kv \<noteq> k) (pairs (heap s) as)"
    "slength s' = slength s - 1"
proof -
  from r k obtain pre a post where as: "as = pre @ a # post" and ka: "key (heap s ! a) = k"
    and tk: "takeWhile (\<lambda>x. before (key (heap s ! x)) k) as = pre"
    and st: "stop_at (heap s) k as = a # post" and f: "found_at (heap s) k as" and nn: "k \<noteq> NilV"
    by (rule present)
  from r obtain a0 where h: "head s = Some a0" by (rule repr_head_cell)
  let ?s = "s\<lparr>heap := unlink_cell (heap s) (pred_at (heap s) k a0 as) (hd (stop_at (heap s) k as)),
             level := 1, slength := slength s - 1\<rparr>"
  have 1: "Delete k s = ret (None, ?s)" by (rule Delete_found [OF r h nn f])
  from repr_unlink(1) [OF r h f] have 2: "repr ?s (pre @ post)" by (simp add: tk st)
  from repr_unlink(2) [OF r h f]
  have "pairs (heap ?s) (pre @ post) = pairs (heap s) pre @ pairs (heap s) post"
    by (simp add: tk st)
  also have "\<dots> = filter (\<lambda>kv. fst kv \<noteq> k)
      (pairs (heap s) pre @ (k, val (heap s ! a)) # pairs (heap s) post)"
    using repr_distinct_keys [OF r] unfolding as
    by (subst remove_at_key) (simp_all add: pairs_append pairs_Cons ka)
  also have "pairs (heap s) pre @ (k, val (heap s ! a)) # pairs (heap s) post = pairs (heap s) as"
    unfolding as by (simp add: pairs_append pairs_Cons ka)
  finally have 3: "pairs (heap ?s) (pre @ post) = filter (\<lambda>kv. fst kv \<noteq> k) (pairs (heap s) as)" .
  from 1 2 3 show ?thesis by (rule that) simp
qed

lemma reachable_contents:
  assumes "reachable s"
  obtains as where "repr s as" "contents s = ret (pairs (heap s) as)"
proof -
  from assms obtain as where r: "repr s as" using reachable_repr by blast
  from r contents_repr [OF r] show ?thesis by (rule that)
qed

lemma repr_contents_eq:
  assumes "repr s as" "contents s = ret kvs"
  shows "kvs = pairs (heap s) as"
  using contents_repr [OF assms(1)] assms(2) by simp

lemma repr_level_keys:
  assumes r: "repr s as" and i: "i < level s"
  shows "level_keys s i = ret (map fst (pairs (heap s) as))"
proof -
  from r have "level s = 1" by (rule repr_head_cell)
  with i have "i = 0" by simp
  with level_keys_repr [OF r] show ?thesis by simp
qed

lemma sorted_wrt_related:
  "sorted_wrt R xs \<Longrightarrow> a \<in> set xs \<Longrightarrow> b \<in> set xs \<Longrightarrow> a \<noteq> b \<Longrightarrow> R a b \<or> R b a"
  by (induction xs) auto


section \<open>An example list\<close>

lemmas run_simps = Insert_def Delete_def Search_def advance.simps getfwd_def setfwd_def setval_def
  hit_def randomLevel_def tails_def compare_def

lemma one_key_built: "Insert (IntV 3) (StrV ''c'') tails (NewSkipList IntT) = ret (None, one_key)"
  by (simp add: run_simps NewSkipList_def one_key_def)

lemma two_keys_built: "Insert (IntV 1) (StrV ''a'') tails one_key = ret (None, two_keys)"
  by (simp add: run_simps one_key_def two_keys_def)

lemma three_keys_built: "Insert (IntV 2) (StrV ''b'') tails two_keys = ret (None, three_keys)"
  by (simp add: run_simps two_keys_def three_keys_def)

lemma three_keys_reachable: "reachable three_keys"
  by (rule r_insert [OF r_insert [OF r_insert [OF r_new one_key_built] two_keys_built]
        three_keys_built])

lemma three_keys_contents:
  "contents three_keys = ret [(IntV 1, StrV ''a''), (IntV 2, StrV ''b''), (IntV 3, StrV ''c'')]"
  by (simp add: contents_def Iterator_def iterate.simps Next_def Key_def Value_def getfwd_def
      three_keys_def)

section \<open>Insert with a sampled height above the current level\<close>

text \<open>
  C1. The claim: for every non-nil key Insert succeeds, and when the sampled height exceeds
  the current level it extends the head's forward array and the update vector and splices
  the node in without any out-of-bounds access. The code allocates \<open>update\<close> with
  \<open>s.level\<close> slots and then assigns \<open>update[i] = s.head\<close> for \<open>i\<close> from \<open>s.level\<close> on:
  on a new list, with a first draw below 0.5 (sampled height 2), Insert of the key 1
  panics with an index out of range.
\<close>

theorem Insert_taller_node_panics:
  "randomLevel heads_once = 2 \<and>
   Insert (IntV 1) (StrV ''a'') heads_once (NewSkipList IntT) = raise IndexOutOfRange"
  by (simp add: randomLevel_def heads_once_def Insert_def NewSkipList_def advance.simps
      getfwd_def hit_def)


section \<open>Structural invariants\<close>

text \<open>
  C2. Every list built by Insert, Delete and Clear calls keeps the structural invariants:
  at every level in use, the scan of \<open>forward[i]\<close> from the head returns strictly
  increasing keys; no two live nodes share a key; and Insert of a key that is present
  returns without error, allocates no node (the store keeps its size, \<open>Length\<close> its value)
  and changes only the value stored with that key. The lists built by the package are the
  \<open>reachable\<close> ones, so the invariants hold after every operation. They hold for keys of
  any type, in particular for keys of one type.
\<close>

theorem invariants_preserved:
  assumes "reachable s"
  shows "\<exists>kvs. contents s = ret kvs \<and> distinct (map fst kvs) \<and>
     (\<forall>i<level s. \<exists>ks. level_keys s i = ret ks \<and> sorted_wrt before ks) \<and>
     (\<forall>k\<in>fst ` set kvs. \<forall>v rnd. \<exists>s'. Insert k v rnd s = ret (None, s') \<and>
        length (heap s') = length (heap s) \<and> Length s' = Length s \<and>
        contents s' = ret (map (\<lambda>(k', v'). (k', if k' = k then v else v')) kvs))"
proof -
  from assms obtain as where r: "repr s as" and c: "contents s = ret (pairs (heap s) as)"
    by (rule reachable_contents)
  let ?kvs = "pairs (heap s) as"
  have 1: "distinct (map fst ?kvs)" using r by (rule repr_distinct_keys)
  have 2: "\<forall>i<level s. \<exists>ks. level_keys s i = ret ks \<and> sorted_wrt before ks"
  proof (intro allI impI)
    fix i assume "i < level s"
    with r have "level_keys s i = ret (map fst ?kvs)" by (rule repr_level_keys)
    moreover from r have "sorted_wrt before (map fst ?kvs)" unfolding repr_def by blast
    ultimately show "\<exists>ks. level_keys s i = ret ks \<and> sorted_wrt before ks" by blast
  qed
  have 3: "\<exists>s'. Insert k v rnd s = ret (None, s') \<and>
        length (heap s') = length (heap s) \<and> Length s' = Length s \<and>
        contents s' = ret (map (\<lambda>(k', v'). (k', if k' = k then v else v')) ?kvs)"
    if "k \<in> fst ` set ?kvs" for k v rnd
  proof -
    from r that obtain s' where i: "Insert k v rnd s = ret (None, s')" and r': "repr s' as"
      and p: "pairs (heap s') as = map (\<lambda>(k', v'). (k', if k' = k then v else v')) ?kvs"
      and l: "slength s' = slength s" "length (heap s') = length (heap s)"
      by (rule Insert_present)
    from contents_repr [OF r'] p have "contents s' =
        ret (map (\<lambda>(k', v'). (k', if k' = k then v else v')) ?kvs)" by simp
    with i l show ?thesis by (simp add: Length_def)
  qed
  from c 1 2 3 show ?thesis by blast
qed

theorem invariants_preserved_witness:
  "reachable three_keys \<and>
   (\<exists>kvs. contents three_keys = ret kvs \<and> distinct (map fst kvs) \<and>
     (\<forall>i<level three_keys. \<exists>ks. level_keys three_keys i = ret ks \<and> sorted_wrt before ks) \<and>
     (\<forall>k\<in>fst ` set kvs. \<forall>v rnd. \<exists>s'. Insert k v rnd three_keys = ret (None, s') \<and>
        length (heap s') = length (heap three_keys) \<and> Length s' = Length three_keys \<and>
        contents s' = ret (map (\<lambda>(k', v'). (k', if k' = k then v else v')) kvs)))"
  by (rule conjI [OF three_keys_reachable invariants_preserved [OF three_keys_reachable]])

section \<open>Insert of a key that is present\<close>

text \<open>
  C3. For every list built by the package and every key present in it, \<open>Insert(key, v1)\<close>
  followed by \<open>Insert(key, v2)\<close> returns no error, leaves \<open>Length()\<close> unchanged, allocates
  no node, changes only the value stored with the key, and a following \<open>Search(key)\<close>
  returns \<open>v2\<close>; whatever the random draws are.
\<close>

theorem Insert_existing_key_overwrites:
  assumes "reachable s" and "contents s = ret kvs" and "k \<in> fst ` set kvs"
  shows "\<exists>s1 s2. Insert k v1 rnd1 s = ret (None, s1) \<and> Insert k v2 rnd2 s1 = ret (None, s2) \<and>
     Length s1 = Length s \<and> Length s2 = Length s \<and>
     length (heap s1) = length (heap s) \<and> length (heap s2) = length (heap s) \<and>
     contents s2 = ret (map (\<lambda>(k', v'). (k', if k' = k then v2 else v')) kvs) \<and>
     Search k s2 = ret (v2, None)"
proof -
  from assms(1) obtain as where r: "repr s as" using reachable_repr by blast
  from r assms(2) have kvs: "kvs = pairs (heap s) as" by (rule repr_contents_eq)
  let ?up = "\<lambda>v kvs. map (\<lambda>(k', v'). (k', if k' = k then v else v')) kvs"
  from r assms(3) [unfolded kvs] obtain s1 where i1: "Insert k v1 rnd1 s = ret (None, s1)"
    and r1: "repr s1 as" and p1: "pairs (heap s1) as = ?up v1 (pairs (heap s) as)"
    and l1: "slength s1 = slength s" "length (heap s1) = length (heap s)"
    by (rule Insert_present)
  have fst_up: "fst ` set (?up v zs) = fst ` set zs" for v and zs :: "(iface \<times> iface) list"
    by (induction zs) auto
  from assms(3) have k1: "k \<in> fst ` set (pairs (heap s1) as)"
    unfolding p1 kvs fst_up .
  from r1 k1 obtain s2 where i2: "Insert k v2 rnd2 s1 = ret (None, s2)"
    and r2: "repr s2 as" and p2: "pairs (heap s2) as = ?up v2 (pairs (heap s1) as)"
    and l2: "slength s2 = slength s1" "length (heap s2) = length (heap s1)"
    by (rule Insert_present)
  have up_up: "?up v2 (?up v1 zs) = ?up v2 zs" for zs :: "(iface \<times> iface) list"
    by (induction zs) auto
  have p: "pairs (heap s2) as = ?up v2 kvs" unfolding p2 p1 up_up kvs ..
  with contents_repr [OF r2] have c2: "contents s2 = ret (?up v2 kvs)" by simp
  from assms(3) obtain v0 where "(k, v0) \<in> set kvs" by auto
  then have "(k, v2) \<in> set (?up v2 kvs)" by force
  then have "(k, v2) \<in> set (pairs (heap s2) as)" unfolding p .
  with r2 have "Search k s2 = ret (v2, None)" by (rule Search_present)
  with i1 i2 l1 l2 c2 show ?thesis by (simp add: Length_def)
qed

theorem Insert_existing_key_overwrites_witness:
  "reachable three_keys \<and>
   contents three_keys = ret [(IntV 1, StrV ''a''), (IntV 2, StrV ''b''), (IntV 3, StrV ''c'')] \<and>
   IntV 2 \<in> fst ` set [(IntV 1, StrV ''a''), (IntV 2, StrV ''b''), (IntV 3, StrV ''c'')] \<and>
   (\<exists>s1 s2. Insert (IntV 2) (StrV ''x'') tails three_keys = ret (None, s1) \<and>
      Insert (IntV 2) (StrV ''y'') heads_once s1 = ret (None, s2) \<and>
      Length s1 = Length three_keys \<and> Length s2 = Length three_keys \<and>
      length (heap s1) = length (heap three_keys) \<and>
      length (heap s2) = length (heap three_keys) \<and>
      contents s2 = ret (map (\<lambda>(k', v'). (k', if k' = IntV 2 then StrV ''y'' else v'))
        [(IntV 1, StrV ''a''), (IntV 2, StrV ''b''), (IntV 3, StrV ''c'')]) \<and>
      Search (IntV 2) s2 = ret (StrV ''y'', None))"
proof -
  have m: "IntV 2 \<in> fst ` set [(IntV 1, StrV ''a''), (IntV 2, StrV ''b''), (IntV 3, StrV ''c'')]"
    by simp
  from three_keys_reachable three_keys_contents m
    Insert_existing_key_overwrites [OF three_keys_reachable three_keys_contents m,
      of "StrV ''x''" tails "StrV ''y''" heads_once]
  show ?thesis by (intro conjI)
qed

section \<open>The loops of Delete on any store\<close>

text \<open>
  The loop that lowers the level, on any store: it returns the largest level, not above
  the given one, that is at most 1 or whose topmost head pointer is not nil.
\<close>

lemma shrink_spec:
  "shrink h h0 lvl = ret l \<Longrightarrow>
   l \<le> lvl \<and> (lvl \<le> 1 \<longrightarrow> l = lvl) \<and> (1 \<le> lvl \<longrightarrow> 1 \<le> l) \<and>
   (\<forall>j. l \<le> j \<and> j < lvl \<longrightarrow> getfwd h h0 j = ret None) \<and>
   (1 < l \<longrightarrow> (\<exists>a. getfwd h h0 (l - 1) = ret (Some a)))"
proof (induction h h0 lvl rule: shrink.induct)
  case (1 h h0 n)
  from "1.prems" obtain f where g: "getfwd h h0 (Suc n) = ret f"
    by (auto simp: bnd_def split: option.splits sum.splits)
  show ?case
  proof (cases f)
    case None
    with "1.prems" g have s: "shrink h h0 (Suc n) = ret l" by simp
    from "1.IH" [OF _ s] None g have ih: "l \<le> Suc n" "1 \<le> l"
      "\<forall>j. l \<le> j \<and> j < Suc n \<longrightarrow> getfwd h h0 j = ret None"
      "1 < l \<longrightarrow> (\<exists>a. getfwd h h0 (l - 1) = ret (Some a))" by auto
    have "getfwd h h0 j = ret None" if "l \<le> j" "j < Suc (Suc n)" for j
    proof (cases "j = Suc n")
      case True
      with g None show ?thesis by simp
    next
      case False
      with that ih(3) show ?thesis by auto
    qed
    with ih show ?thesis by auto
  next
    case (Some a)
    with "1.prems" g have "l = Suc (Suc n)" by simp
    with g Some show ?thesis by auto
  qed
qed auto


lemma getfwd_ret:
  assumes "getfwd h p i = ret f"
  obtains a where "p = Some a" "a < length h" "i < length (forward (h ! a))"
    "f = forward (h ! a) ! i"
  using assms
  by (cases p) (auto simp: getfwd_def deref_def index_def bnd_def split: if_splits)

lemma setfwd_ret:
  assumes "a < length h" "i < length (forward (h ! a))"
  shows "setfwd h (Some a) i q = ret (h[a := (h ! a)\<lparr>forward := (forward (h ! a))[i := q]\<rparr>])"
  using assms by (simp add: setfwd_def)

lemma slot_update_other:
  assumes "j \<noteq> i"
  shows "forward (h[a := (h ! a)\<lparr>forward := (forward (h ! a))[i := q]\<rparr>] ! b) ! j = forward (h ! b) ! j"
  using assms by (cases "b = a"; cases "a < length h") (simp_all add: list_update_beyond)

lemma slot_update_same:
  assumes "a < length h" "i < length (forward (h ! a))"
  shows "forward (h[a := (h ! a)\<lparr>forward := (forward (h ! a))[i := q]\<rparr>] ! a) ! i = q"
  using assms by simp

lemma slot_update_node:
  assumes "b \<noteq> a"
  shows "forward (h[a := (h ! a)\<lparr>forward := (forward (h ! a))[i := q]\<rparr>] ! b) ! j = forward (h ! b) ! j"
  using assms by simp

text \<open>
  The unlink loop on any store: it redirects the recorded predecessor at each level from
  \<open>i\<close> up to the first level where the predecessor does not point at the node.
\<close>

lemma unlink_spec:
  "unlink h update current i n = ret h' \<Longrightarrow>
   \<exists>m\<le>n.
     (\<forall>j. i \<le> j \<and> j < i + m \<longrightarrow>
        (\<exists>u c. update ! j = Some u \<and> current = Some c \<and> forward (h ! u) ! j = current \<and>
           forward (h' ! u) ! j = forward (h ! c) ! j)) \<and>
     (m < n \<longrightarrow> (\<exists>u. update ! (i + m) = Some u \<and> forward (h ! u) ! (i + m) \<noteq> current)) \<and>
     (\<forall>a j. \<not> (i \<le> j \<and> j < i + m \<and> update ! j = Some a) \<longrightarrow>
        forward (h' ! a) ! j = forward (h ! a) ! j)"
proof (induction n arbitrary: h i)
  case 0
  then show ?case by auto
next
  case (Suc n)
  from Suc.prems obtain uo where ix: "index update i = ret uo"
    by (auto simp: bnd_def split: option.splits sum.splits)
  then have uo: "uo = update ! i" by (auto simp: index_def split: if_splits)
  from Suc.prems ix obtain f where g: "getfwd h uo i = ret f"
    by (auto simp: bnd_def split: option.splits sum.splits)
  from g obtain u where u: "uo = Some u" "u < length h" "i < length (forward (h ! u))"
    "f = forward (h ! u) ! i" by (rule getfwd_ret)
  show ?case
  proof (cases "f = current")
    case False
    with Suc.prems ix g have "h' = h" by simp
    with False u uo show ?thesis by (intro exI [of _ 0]) auto
  next
    case True
    with Suc.prems ix g obtain nx where gc: "getfwd h current i = ret nx"
      by (auto simp: bnd_def split: option.splits sum.splits)
    from gc obtain c where c: "current = Some c" "c < length h" "i < length (forward (h ! c))"
      "nx = forward (h ! c) ! i" by (rule getfwd_ret)
    define h1 where "h1 = h[u := (h ! u)\<lparr>forward := (forward (h ! u))[i := nx]\<rparr>]"
    from Suc.prems ix g True gc u have rec: "unlink h1 update current (Suc i) n = ret h'"
      by (simp add: setfwd_ret h1_def)
    from Suc.IH [OF rec] obtain m where m: "m \<le> n"
      and a: "\<And>j. Suc i \<le> j \<Longrightarrow> j < Suc i + m \<Longrightarrow>
        \<exists>u' c'. update ! j = Some u' \<and> current = Some c' \<and> forward (h1 ! u') ! j = current \<and>
           forward (h' ! u') ! j = forward (h1 ! c') ! j"
      and b: "m < n \<Longrightarrow> \<exists>u'. update ! (Suc i + m) = Some u' \<and>
           forward (h1 ! u') ! (Suc i + m) \<noteq> current"
      and fr: "\<And>a j. \<not> (Suc i \<le> j \<and> j < Suc i + m \<and> update ! j = Some a) \<Longrightarrow>
        forward (h' ! a) ! j = forward (h1 ! a) ! j"
      by blast
    have other: "forward (h1 ! x) ! j = forward (h ! x) ! j" if "j \<noteq> i" for x j
      unfolding h1_def using that by (rule slot_update_other)
    have node: "forward (h1 ! x) ! j = forward (h ! x) ! j" if "x \<noteq> u" for x j
      unfolding h1_def using that by (rule slot_update_node)
    have same: "forward (h1 ! u) ! i = nx"
      unfolding h1_def using u(2,3) by (rule slot_update_same)
    have 1: "\<exists>u' c'. update ! j = Some u' \<and> current = Some c' \<and> forward (h ! u') ! j = current \<and>
           forward (h' ! u') ! j = forward (h ! c') ! j" if "i \<le> j" "j < i + Suc m" for j
    proof (cases "j = i")
      case True
      have "forward (h' ! u) ! i = forward (h1 ! u) ! i" by (rule fr) simp
      then have "forward (h' ! u) ! i = forward (h ! c) ! i" using same c(4) by simp
      moreover have "update ! i = Some u" using uo u(1) by simp
      moreover have "forward (h ! u) ! i = current" using u(4) \<open>f = current\<close> by simp
      ultimately show ?thesis unfolding True using c(1) by blast
    next
      case False
      with that have "Suc i \<le> j" "j < Suc i + m" by simp_all
      from a [OF this] obtain u' c' where "update ! j = Some u'" "current = Some c'"
        "forward (h1 ! u') ! j = current" "forward (h' ! u') ! j = forward (h1 ! c') ! j"
        by blast
      then have "update ! j = Some u' \<and> current = Some c' \<and> forward (h ! u') ! j = current \<and>
           forward (h' ! u') ! j = forward (h ! c') ! j"
        by (simp only: other [OF False] simp_thms)
      then show ?thesis by blast
    qed
    have 2: "\<exists>u'. update ! (i + Suc m) = Some u' \<and> forward (h ! u') ! (i + Suc m) \<noteq> current"
      if "Suc m < Suc n"
    proof -
      from that have "m < n" by simp
      from b [OF this] obtain u' where "update ! (Suc i + m) = Some u'"
        "forward (h1 ! u') ! (Suc i + m) \<noteq> current" by blast
      moreover have "Suc i + m \<noteq> i" by simp
      ultimately have "update ! (Suc i + m) = Some u' \<and> forward (h ! u') ! (Suc i + m) \<noteq> current"
        by (simp only: other simp_thms)
      then show ?thesis by auto
    qed
    have 3: "forward (h' ! x) ! j = forward (h ! x) ! j"
      if "\<not> (i \<le> j \<and> j < i + Suc m \<and> update ! j = Some x)" for x j
    proof -
      from that have "\<not> (Suc i \<le> j \<and> j < Suc i + m \<and> update ! j = Some x)" by auto
      then have e: "forward (h' ! x) ! j = forward (h1 ! x) ! j" by (rule fr)
      show ?thesis
      proof (cases "j = i")
        case True
        with that uo u(1) have "x \<noteq> u" by auto
        then show ?thesis unfolding e by (rule node)
      next
        case False
        then show ?thesis unfolding e by (rule other)
      qed
    qed
    show ?thesis
    proof (rule exI [of _ "Suc m"], intro conjI allI impI)
      show "Suc m \<le> Suc n" using m by simp
    next
      fix j assume "i \<le> j \<and> j < i + Suc m"
      then show "\<exists>u c. update ! j = Some u \<and> current = Some c \<and> forward (h ! u) ! j = current \<and>
           forward (h' ! u) ! j = forward (h ! c) ! j" using 1 by blast
    next
      assume "Suc m < Suc n"
      then show "\<exists>u. update ! (i + Suc m) = Some u \<and> forward (h ! u) ! (i + Suc m) \<noteq> current"
        by (rule 2)
    next
      fix a j assume "\<not> (i \<le> j \<and> j < i + Suc m \<and> update ! j = Some a)"
      then show "forward (h' ! a) ! j = forward (h ! a) ! j" by (rule 3)
    qed
  qed
qed


lemma bnd_ret_iff: "bnd m f = ret y \<longleftrightarrow> (\<exists>x. m = ret x \<and> f x = ret y)"
  by (auto simp: bnd_def split: option.splits sum.splits)

text \<open>The steps of a Delete that returns no error, on any store.\<close>

lemma Delete_steps:
  assumes "Delete k s = ret (None, s')"
  obtains pred update current h' lvl where
    "descend (heap s) k (level s) (head s) (replicate (level s) None) = ret (pred, update)"
    "getfwd (heap s) pred 0 = ret current" "hit (heap s) current k = ret True"
    "unlink (heap s) update current 0 (level s) = ret h'"
    "shrink h' (head s) (level s) = ret lvl"
    "s' = s\<lparr>heap := h', level := lvl, slength := slength s - 1\<rparr>"
proof -
  from assms have k: "k \<noteq> NilV" by (auto simp: Delete_def split: if_splits)
  from assms k obtain pred update current found where
    d: "descend (heap s) k (level s) (head s) (replicate (level s) None) = ret (pred, update)"
    and g: "getfwd (heap s) pred 0 = ret current"
    and ht: "hit (heap s) current k = ret found"
    and rest: "(if found then
          bnd (unlink (heap s) update current 0 (level s)) (\<lambda>h.
          bnd (shrink h (head s) (level s)) (\<lambda>lvl.
          ret (None, s\<lparr>heap := h, level := lvl, slength := slength s - 1\<rparr>)))
        else ret (Some NotFound, s)) = ret (None, s')"
    unfolding Delete_def by (auto simp: bnd_ret_iff)
  from rest have f: "found" by (auto split: if_splits)
  with rest obtain h' lvl where u: "unlink (heap s) update current 0 (level s) = ret h'"
    and sh: "shrink h' (head s) (level s) = ret lvl"
    and s': "s' = s\<lparr>heap := h', level := lvl, slength := slength s - 1\<rparr>"
    by (auto simp: bnd_ret_iff)
  from d g ht f u sh s' show ?thesis by (intro that [of pred update current h' lvl]) simp_all
qed

lemma two_levels_Delete: "Delete (IntV 2) two_levels = ret (None, two_levels_after)"
  by (simp add: Delete_def advance.simps getfwd_def setfwd_def hit_def compare_def
      two_levels_def two_levels_after_def numeral_2_eq_2)

lemma hit_True:
  assumes "hit h current k = ret True"
  obtains c where "current = Some c" "c < length h" "compare (key (h ! c)) k = 0"
  using assms
  by (cases current) (auto simp: hit_def deref_def bnd_def split: if_splits)

lemma unlink_frame:
  "unlink h update current i n = ret h' \<Longrightarrow>
   length h' = length h \<and>
   (\<forall>a. key (h' ! a) = key (h ! a) \<and> val (h' ! a) = val (h ! a) \<and>
        length (forward (h' ! a)) = length (forward (h ! a)))"
proof (induction n arbitrary: h i)
  case 0
  then show ?case by simp
next
  case (Suc n)
  from Suc.prems obtain uo where ix: "index update i = ret uo"
    by (auto simp: bnd_ret_iff)
  from Suc.prems ix obtain f where g: "getfwd h uo i = ret f"
    by (auto simp: bnd_ret_iff)
  from g obtain u where u: "uo = Some u" "u < length h" "i < length (forward (h ! u))"
    by (rule getfwd_ret)
  show ?case
  proof (cases "f = current")
    case False
    with Suc.prems ix g show ?thesis by simp
  next
    case True
    with Suc.prems ix g obtain nx where gc: "getfwd h current i = ret nx"
      by (auto simp: bnd_ret_iff)
    define h1 where "h1 = h[u := (h ! u)\<lparr>forward := (forward (h ! u))[i := nx]\<rparr>]"
    from Suc.prems ix g True gc u have rec: "unlink h1 update current (Suc i) n = ret h'"
      by (simp add: setfwd_ret h1_def)
    have 1: "length h1 = length h" by (simp add: h1_def)
    have 2: "key (h1 ! a) = key (h ! a) \<and> val (h1 ! a) = val (h ! a) \<and>
        length (forward (h1 ! a)) = length (forward (h ! a))" for a
      unfolding h1_def using u(2) by (cases "a = u") simp_all
    from Suc.IH [OF rec] 1 2 show ?thesis by simp
  qed
qed

lemma unlink_from_0:
  assumes "unlink h update current 0 n = ret h'"
  obtains m where "m \<le> n"
    "\<And>j. j < m \<Longrightarrow> \<exists>u c. update ! j = Some u \<and> current = Some c \<and>
        forward (h ! u) ! j = current \<and> forward (h' ! u) ! j = forward (h ! c) ! j"
    "m < n \<Longrightarrow> \<exists>u. update ! m = Some u \<and> forward (h ! u) ! m \<noteq> current"
    "\<And>a j. \<not> (j < m \<and> update ! j = Some a) \<Longrightarrow> forward (h' ! a) ! j = forward (h ! a) ! j"
proof -
  from unlink_spec [OF assms] obtain m where c: "m \<le> n \<and>
     (\<forall>j. 0 \<le> j \<and> j < 0 + m \<longrightarrow>
        (\<exists>u c. update ! j = Some u \<and> current = Some c \<and> forward (h ! u) ! j = current \<and>
           forward (h' ! u) ! j = forward (h ! c) ! j)) \<and>
     (m < n \<longrightarrow> (\<exists>u. update ! (0 + m) = Some u \<and> forward (h ! u) ! (0 + m) \<noteq> current)) \<and>
     (\<forall>a j. \<not> (0 \<le> j \<and> j < 0 + m \<and> update ! j = Some a) \<longrightarrow>
        forward (h' ! a) ! j = forward (h ! a) ! j)" ..
  show ?thesis
  proof (rule that [of m])
    from c show "m \<le> n" by (rule conjunct1)
  next
    fix j assume "j < m"
    with c show "\<exists>u c. update ! j = Some u \<and> current = Some c \<and>
        forward (h ! u) ! j = current \<and> forward (h' ! u) ! j = forward (h ! c) ! j" by simp
  next
    assume "m < n"
    with c show "\<exists>u. update ! m = Some u \<and> forward (h ! u) ! m \<noteq> current" by simp
  next
    fix a j assume "\<not> (j < m \<and> update ! j = Some a)"
    with c show "forward (h' ! a) ! j = forward (h ! a) ! j" by simp
  qed
qed



text \<open>
  What a Delete that returns no error has done, on any store, with one level or with
  several.
\<close>

lemma Delete_effect:
  assumes "Delete k t = ret (None, t')"
  shows "Length t' = Length t - 1 \<and> head t' = head t \<and> length (heap t') = length (heap t) \<and>
     (\<forall>a. key (heap t' ! a) = key (heap t ! a) \<and> val (heap t' ! a) = val (heap t ! a) \<and>
        length (forward (heap t' ! a)) = length (forward (heap t ! a))) \<and>
     (\<exists>pred update current m.
        descend (heap t) k (level t) (head t) (replicate (level t) None) = ret (pred, update) \<and>
        getfwd (heap t) pred 0 = ret current \<and>
        (\<exists>c. current = Some c \<and> c < length (heap t) \<and> compare (key (heap t ! c)) k = 0) \<and>
        m \<le> level t \<and>
        (\<forall>j<m. \<exists>u c. update ! j = Some u \<and> current = Some c \<and>
           forward (heap t ! u) ! j = current \<and>
           forward (heap t' ! u) ! j = forward (heap t ! c) ! j) \<and>
        (m < level t \<longrightarrow> (\<exists>u. update ! m = Some u \<and> forward (heap t ! u) ! m \<noteq> current)) \<and>
        (\<forall>a j. \<not> (j < m \<and> update ! j = Some a) \<longrightarrow>
           forward (heap t' ! a) ! j = forward (heap t ! a) ! j)) \<and>
     level t' \<le> level t \<and> (level t \<le> 1 \<longrightarrow> level t' = level t) \<and>
     (1 \<le> level t \<longrightarrow> 1 \<le> level t') \<and>
     (\<forall>j. level t' \<le> j \<and> j < level t \<longrightarrow> getfwd (heap t') (head t') j = ret None) \<and>
     (1 < level t' \<longrightarrow> (\<exists>a. getfwd (heap t') (head t') (level t' - 1) = ret (Some a)))"
proof -
  from assms obtain pred update current h' lvl where
    d: "descend (heap t) k (level t) (head t) (replicate (level t) None) = ret (pred, update)"
    and g: "getfwd (heap t) pred 0 = ret current"
    and ht: "hit (heap t) current k = ret True"
    and u: "unlink (heap t) update current 0 (level t) = ret h'"
    and sh0: "shrink h' (head t) (level t) = ret lvl"
    and t': "t' = t\<lparr>heap := h', level := lvl, slength := slength t - 1\<rparr>"
    by (rule Delete_steps)
  from t' have hp: "heap t' = h'" and hd: "head t' = head t" and lv: "level t' = lvl"
    and ln: "Length t' = Length t - 1"
    by (simp_all add: Length_def)
  from sh0 have sh: "shrink (heap t') (head t') (level t) = ret (level t')"
    by (simp only: lv hp hd)
  from u have u': "unlink (heap t) update current 0 (level t) = ret (heap t')"
    by (simp only: hp)
  from ht have cur: "\<exists>c. current = Some c \<and> c < length (heap t) \<and> compare (key (heap t ! c)) k = 0"
    by (rule hit_True) blast
  note fm = unlink_frame [OF u']
  note f1 = fm [THEN conjunct1] and f2 = fm [THEN conjunct2]
  note sp = shrink_spec [OF sh]
  note s1 = sp [THEN conjunct1] and s2 = sp [THEN conjunct2, THEN conjunct1]
    and s3 = sp [THEN conjunct2, THEN conjunct2, THEN conjunct1]
    and s4 = sp [THEN conjunct2, THEN conjunct2, THEN conjunct2, THEN conjunct1]
    and s5 = sp [THEN conjunct2, THEN conjunct2, THEN conjunct2, THEN conjunct2]
  show ?thesis
  proof (rule unlink_from_0 [OF u'])
    fix m
    assume m: "m \<le> level t"
      and a: "\<And>j. j < m \<Longrightarrow> \<exists>u c. update ! j = Some u \<and> current = Some c \<and>
        forward (heap t ! u) ! j = current \<and> forward (heap t' ! u) ! j = forward (heap t ! c) ! j"
      and b: "m < level t \<Longrightarrow> \<exists>u. update ! m = Some u \<and> forward (heap t ! u) ! m \<noteq> current"
      and fr: "\<And>a j. \<not> (j < m \<and> update ! j = Some a) \<Longrightarrow>
        forward (heap t' ! a) ! j = forward (heap t ! a) ! j"
    have 1: "\<exists>pred update current m.
        descend (heap t) k (level t) (head t) (replicate (level t) None) = ret (pred, update) \<and>
        getfwd (heap t) pred 0 = ret current \<and>
        (\<exists>c. current = Some c \<and> c < length (heap t) \<and> compare (key (heap t ! c)) k = 0) \<and>
        m \<le> level t \<and>
        (\<forall>j<m. \<exists>u c. update ! j = Some u \<and> current = Some c \<and>
           forward (heap t ! u) ! j = current \<and>
           forward (heap t' ! u) ! j = forward (heap t ! c) ! j) \<and>
        (m < level t \<longrightarrow> (\<exists>u. update ! m = Some u \<and> forward (heap t ! u) ! m \<noteq> current)) \<and>
        (\<forall>a j. \<not> (j < m \<and> update ! j = Some a) \<longrightarrow>
           forward (heap t' ! a) ! j = forward (heap t ! a) ! j)"
    proof (rule exI [of _ pred], rule exI [of _ update], rule exI [of _ current],
        rule exI [of _ m], intro conjI allI impI)
      show "descend (heap t) k (level t) (head t) (replicate (level t) None) = ret (pred, update)"
        by (rule d)
      show "getfwd (heap t) pred 0 = ret current" by (rule g)
      show "\<exists>c. current = Some c \<and> c < length (heap t) \<and> compare (key (heap t ! c)) k = 0"
        by (rule cur)
      show "m \<le> level t" by (rule m)
      show "\<exists>u c. update ! j = Some u \<and> current = Some c \<and>
          forward (heap t ! u) ! j = current \<and> forward (heap t' ! u) ! j = forward (heap t ! c) ! j"
        if "j < m" for j using that by (rule a)
      show "\<exists>u. update ! m = Some u \<and> forward (heap t ! u) ! m \<noteq> current" if "m < level t"
        using that by (rule b)
      show "forward (heap t' ! a) ! j = forward (heap t ! a) ! j"
        if "\<not> (j < m \<and> update ! j = Some a)" for a j using that by (rule fr)
    qed
    from ln hd f1 f2 1 s1 s2 s3 s4 s5 show ?thesis by (intro conjI)
  qed
qed

section \<open>Delete of a key that is present\<close>

text \<open>
  C5. First part: for every list built by the package that contains a key \<open>k\<close>,
  \<open>Delete(k)\<close> returns no error and \<open>Length()\<close> decreases by exactly 1; the cursor and the
  scan of level 0 no longer meet the key, every other pair stays, in order; a following
  \<open>Search(k)\<close> returns \<open>NotFound\<close>. Second part, for every store \<open>t\<close>, with one level or
  with several: when \<open>Delete(k)\<close> returns no error, \<open>length\<close> has decreased by exactly 1 and
  no key, value, node or head has changed; with \<open>update\<close> the predecessors recorded by the
  traversal and \<open>current\<close> the node found (its key compares equal to \<open>k\<close>), there is a
  number \<open>m\<close> of levels such that at every level below \<open>m\<close> the predecessor pointed at the
  node and now points at the node's own successor, at level \<open>m\<close> (if it is a level in use)
  the predecessor does not point at the node, and no other forward pointer has changed;
  and the level afterwards is the highest one, not above the level before, that is 1 or
  has a head pointer that is not nil: every head pointer of a level given up is nil.
\<close>

theorem Delete_existing_key:
  "(reachable s \<and> contents s = ret kvs \<and> k \<in> fst ` set kvs \<longrightarrow>
      (\<exists>s'. Delete k s = ret (None, s') \<and> Length s' = Length s - 1 \<and>
         contents s' = ret (filter (\<lambda>kv. fst kv \<noteq> k) kvs) \<and>
         level_keys s' 0 = ret (map fst (filter (\<lambda>kv. fst kv \<noteq> k) kvs)) \<and>
         Search k s' = ret (NilV, Some NotFound))) \<and>
   (Delete k t = ret (None, t') \<longrightarrow>
      Length t' = Length t - 1 \<and> head t' = head t \<and> length (heap t') = length (heap t) \<and>
      (\<forall>a. key (heap t' ! a) = key (heap t ! a) \<and> val (heap t' ! a) = val (heap t ! a) \<and>
         length (forward (heap t' ! a)) = length (forward (heap t ! a))) \<and>
      (\<exists>pred update current m.
         descend (heap t) k (level t) (head t) (replicate (level t) None) = ret (pred, update) \<and>
         getfwd (heap t) pred 0 = ret current \<and>
         (\<exists>c. current = Some c \<and> c < length (heap t) \<and> compare (key (heap t ! c)) k = 0) \<and>
         m \<le> level t \<and>
         (\<forall>j<m. \<exists>u c. update ! j = Some u \<and> current = Some c \<and>
            forward (heap t ! u) ! j = current \<and>
            forward (heap t' ! u) ! j = forward (heap t ! c) ! j) \<and>
         (m < level t \<longrightarrow> (\<exists>u. update ! m = Some u \<and> forward (heap t ! u) ! m \<noteq> current)) \<and>
         (\<forall>a j. \<not> (j < m \<and> update ! j = Some a) \<longrightarrow>
            forward (heap t' ! a) ! j = forward (heap t ! a) ! j)) \<and>
      level t' \<le> level t \<and> (level t \<le> 1 \<longrightarrow> level t' = level t) \<and>
      (1 \<le> level t \<longrightarrow> 1 \<le> level t') \<and>
      (\<forall>j. level t' \<le> j \<and> j < level t \<longrightarrow> getfwd (heap t') (head t') j = ret None) \<and>
      (1 < level t' \<longrightarrow> (\<exists>a. getfwd (heap t') (head t') (level t' - 1) = ret (Some a))))"
proof (rule conjI; rule impI)
  assume "reachable s \<and> contents s = ret kvs \<and> k \<in> fst ` set kvs"
  then have re: "reachable s" and co: "contents s = ret kvs" and km: "k \<in> fst ` set kvs"
    by simp_all
  from re obtain as where r: "repr s as" using reachable_repr by blast
  from r co have kvs: "kvs = pairs (heap s) as" by (rule repr_contents_eq)
  from r km [unfolded kvs] obtain s' as' where d: "Delete k s = ret (None, s')"
    and r': "repr s' as'" and p: "pairs (heap s') as' = filter (\<lambda>kv. fst kv \<noteq> k) kvs"
    and l: "slength s' = slength s - 1"
    unfolding kvs by (rule Delete_present)
  from r km [unfolded kvs] have nn: "k \<noteq> NilV" by (rule present)
  from r' have so: "sorted_wrt before (map (\<lambda>a. key (heap s' ! a)) as')"
    unfolding repr_def keys_pairs by blast
  have "\<not> found_at (heap s') k as'"
  proof
    assume "found_at (heap s') k as'"
    then obtain a where a: "a \<in> set as'" and c: "compare (key (heap s' ! a)) k = 0"
      unfolding found_at_iff [OF so] by blast
    from a have m: "key (heap s' ! a) \<in> fst ` set (pairs (heap s') as')"
      by (force simp: pairs_def)
    then have ne: "key (heap s' ! a) \<noteq> k" unfolding p by auto
    from m have "key (heap s' ! a) \<in> set (map fst kvs)" unfolding p by auto
    moreover have "sorted_wrt before (map fst kvs)" using r unfolding repr_def kvs by blast
    moreover from km have "k \<in> set (map fst kvs)" by simp
    ultimately have "before (key (heap s' ! a)) k \<or> before k (key (heap s' ! a))"
      using ne by (intro sorted_wrt_related [of before "map fst kvs"]) simp_all
    then have "compare (key (heap s' ! a)) k < 0 \<or> 0 < compare (key (heap s' ! a)) k"
      unfolding compare_pos_iff by (simp add: before_def)
    with c show False by simp
  qed
  with Search_repr [OF r' nn] have 5: "Search k s' = ret (NilV, Some NotFound)" by simp
  from l have 2: "Length s' = Length s - 1" by (simp add: Length_def)
  from contents_repr [OF r'] p
  have 3: "contents s' = ret (filter (\<lambda>kv. fst kv \<noteq> k) kvs)" by simp
  from level_keys_repr [OF r'] p
  have 4: "level_keys s' 0 = ret (map fst (filter (\<lambda>kv. fst kv \<noteq> k) kvs))" by simp
  show "\<exists>s'. Delete k s = ret (None, s') \<and> Length s' = Length s - 1 \<and>
         contents s' = ret (filter (\<lambda>kv. fst kv \<noteq> k) kvs) \<and>
         level_keys s' 0 = ret (map fst (filter (\<lambda>kv. fst kv \<noteq> k) kvs)) \<and>
         Search k s' = ret (NilV, Some NotFound)"
    by (rule exI [of _ s'], intro conjI) (rule d 2 3 4 5)+
next
  assume "Delete k t = ret (None, t')"
  then show "Length t' = Length t - 1 \<and> head t' = head t \<and> length (heap t') = length (heap t) \<and>
      (\<forall>a. key (heap t' ! a) = key (heap t ! a) \<and> val (heap t' ! a) = val (heap t ! a) \<and>
         length (forward (heap t' ! a)) = length (forward (heap t ! a))) \<and>
      (\<exists>pred update current m.
         descend (heap t) k (level t) (head t) (replicate (level t) None) = ret (pred, update) \<and>
         getfwd (heap t) pred 0 = ret current \<and>
         (\<exists>c. current = Some c \<and> c < length (heap t) \<and> compare (key (heap t ! c)) k = 0) \<and>
         m \<le> level t \<and>
         (\<forall>j<m. \<exists>u c. update ! j = Some u \<and> current = Some c \<and>
            forward (heap t ! u) ! j = current \<and>
            forward (heap t' ! u) ! j = forward (heap t ! c) ! j) \<and>
         (m < level t \<longrightarrow> (\<exists>u. update ! m = Some u \<and> forward (heap t ! u) ! m \<noteq> current)) \<and>
         (\<forall>a j. \<not> (j < m \<and> update ! j = Some a) \<longrightarrow>
            forward (heap t' ! a) ! j = forward (heap t ! a) ! j)) \<and>
      level t' \<le> level t \<and> (level t \<le> 1 \<longrightarrow> level t' = level t) \<and>
      (1 \<le> level t \<longrightarrow> 1 \<le> level t') \<and>
      (\<forall>j. level t' \<le> j \<and> j < level t \<longrightarrow> getfwd (heap t') (head t') j = ret None) \<and>
      (1 < level t' \<longrightarrow> (\<exists>a. getfwd (heap t') (head t') (level t' - 1) = ret (Some a)))"
    by (rule Delete_effect)
qed


theorem Delete_existing_key_witness:
  "reachable three_keys \<and>
   contents three_keys = ret [(IntV 1, StrV ''a''), (IntV 2, StrV ''b''), (IntV 3, StrV ''c'')] \<and>
   IntV 2 \<in> fst ` set [(IntV 1, StrV ''a''), (IntV 2, StrV ''b''), (IntV 3, StrV ''c'')] \<and>
   (\<exists>s'. Delete (IntV 2) three_keys = ret (None, s') \<and> Length s' = 2 \<and>
      contents s' = ret [(IntV 1, StrV ''a''), (IntV 3, StrV ''c'')] \<and>
      level_keys s' 0 = ret [IntV 1, IntV 3] \<and>
      Search (IntV 2) s' = ret (NilV, Some NotFound)) \<and>
   Delete (IntV 2) two_levels = ret (None, two_levels_after) \<and>
   level two_levels = 2 \<and> level two_levels_after = 1 \<and>
   Length two_levels_after = Length two_levels - 1 \<and>
   getfwd (heap two_levels_after) (head two_levels_after) 1 = ret None \<and>
   (\<exists>pred update current m.
      descend (heap two_levels) (IntV 2) (level two_levels) (head two_levels)
        (replicate (level two_levels) None) = ret (pred, update) \<and>
      getfwd (heap two_levels) pred 0 = ret current \<and>
      (\<exists>c. current = Some c \<and> c < length (heap two_levels) \<and>
         compare (key (heap two_levels ! c)) (IntV 2) = 0) \<and>
      m \<le> level two_levels \<and>
      (\<forall>j<m. \<exists>u c. update ! j = Some u \<and> current = Some c \<and>
         forward (heap two_levels ! u) ! j = current \<and>
         forward (heap two_levels_after ! u) ! j = forward (heap two_levels ! c) ! j) \<and>
      (m < level two_levels \<longrightarrow>
         (\<exists>u. update ! m = Some u \<and> forward (heap two_levels ! u) ! m \<noteq> current)) \<and>
      (\<forall>a j. \<not> (j < m \<and> update ! j = Some a) \<longrightarrow>
         forward (heap two_levels_after ! a) ! j = forward (heap two_levels ! a) ! j))"
proof -
  have m: "IntV 2 \<in> fst ` set [(IntV 1, StrV ''a''), (IntV 2, StrV ''b''), (IntV 3, StrV ''c'')]"
    by simp
  have l: "Length three_keys = 3" by (simp add: Length_def three_keys_def)
  have lv: "level two_levels = 2" "level two_levels_after = 1"
    by (simp_all add: two_levels_def two_levels_after_def)
  note T = Delete_existing_key [of three_keys
      "[(IntV 1, StrV ''a''), (IntV 2, StrV ''b''), (IntV 3, StrV ''c'')]" "IntV 2"
      two_levels two_levels_after]
  note T1 = T [THEN conjunct1, THEN mp,
      OF conjI [OF three_keys_reachable conjI [OF three_keys_contents m]]]
  note T2 = T [THEN conjunct2, THEN mp, OF two_levels_Delete]
  from T1 obtain s' where "Delete (IntV 2) three_keys = ret (None, s')"
    "Length s' = Length three_keys - 1"
    "contents s' = ret (filter (\<lambda>kv. fst kv \<noteq> IntV 2)
        [(IntV 1, StrV ''a''), (IntV 2, StrV ''b''), (IntV 3, StrV ''c'')])"
    "level_keys s' 0 = ret (map fst (filter (\<lambda>kv. fst kv \<noteq> IntV 2)
        [(IntV 1, StrV ''a''), (IntV 2, StrV ''b''), (IntV 3, StrV ''c'')]))"
    "Search (IntV 2) s' = ret (NilV, Some NotFound)"
    by (elim exE conjE)
  then have "Delete (IntV 2) three_keys = ret (None, s') \<and> Length s' = 2 \<and>
      contents s' = ret [(IntV 1, StrV ''a''), (IntV 3, StrV ''c'')] \<and>
      level_keys s' 0 = ret [IntV 1, IntV 3] \<and>
      Search (IntV 2) s' = ret (NilV, Some NotFound)"
    by (simp add: l)
  then have A: "\<exists>s'. Delete (IntV 2) three_keys = ret (None, s') \<and> Length s' = 2 \<and>
      contents s' = ret [(IntV 1, StrV ''a''), (IntV 3, StrV ''c'')] \<and>
      level_keys s' 0 = ret [IntV 1, IntV 3] \<and>
      Search (IntV 2) s' = ret (NilV, Some NotFound)" ..
  from T2 have L: "Length two_levels_after = Length two_levels - 1" by (rule conjunct1)
  from T2 have E: "\<exists>pred update current m.
      descend (heap two_levels) (IntV 2) (level two_levels) (head two_levels)
        (replicate (level two_levels) None) = ret (pred, update) \<and>
      getfwd (heap two_levels) pred 0 = ret current \<and>
      (\<exists>c. current = Some c \<and> c < length (heap two_levels) \<and>
         compare (key (heap two_levels ! c)) (IntV 2) = 0) \<and>
      m \<le> level two_levels \<and>
      (\<forall>j<m. \<exists>u c. update ! j = Some u \<and> current = Some c \<and>
         forward (heap two_levels ! u) ! j = current \<and>
         forward (heap two_levels_after ! u) ! j = forward (heap two_levels ! c) ! j) \<and>
      (m < level two_levels \<longrightarrow>
         (\<exists>u. update ! m = Some u \<and> forward (heap two_levels ! u) ! m \<noteq> current)) \<and>
      (\<forall>a j. \<not> (j < m \<and> update ! j = Some a) \<longrightarrow>
         forward (heap two_levels_after ! a) ! j = forward (heap two_levels ! a) ! j)"
    by (elim conjE)
  from T2 have "\<forall>j. level two_levels_after \<le> j \<and> j < level two_levels \<longrightarrow>
      getfwd (heap two_levels_after) (head two_levels_after) j = ret None"
    by (elim conjE)
  with lv have G: "getfwd (heap two_levels_after) (head two_levels_after) 1 = ret None"
    by simp
  from three_keys_reachable three_keys_contents m A two_levels_Delete lv L G E
  show ?thesis by (intro conjI)
qed

lemma compare_mismatch: "\<not> same_supported_type a b \<Longrightarrow> compare a b = 0"
  by (cases a; cases b) (simp_all add: same_supported_type_def compare_def)

lemma compare_same_type: "same_supported_type a b \<Longrightarrow> compare a b = 0 \<longleftrightarrow> a = b"
  by (cases a; cases b) (auto simp: same_supported_type_def compare_def strings_Compare_def)

lemma Insert_returns_no_error:
  assumes r: "repr s as" and k: "k \<noteq> NilV"
  shows "Insert k v rnd s \<noteq> ret (Some e, s')"
proof (cases "found_at (heap s) k as")
  case True
  from Insert_found [OF r k True, of v rnd] show ?thesis by simp
next
  case False
  from r obtain a0 where h: "head s = Some a0" by (rule repr_head_cell)
  from randomLevel_cases [of rnd] show ?thesis
  proof
    assume "randomLevel rnd = 1"
    from Insert_new [OF r h k False this, of v] show ?thesis by simp
  next
    assume "1 < randomLevel rnd"
    from Insert_taller [OF r k False this, of v] show ?thesis by simp
  qed
qed

lemma found_at_keys:
  assumes r: "repr s as"
  shows "found_at (heap s) k as \<longleftrightarrow> (\<exists>k'\<in>fst ` set (pairs (heap s) as). compare k' k = 0)"
proof -
  from r have so: "sorted_wrt before (map (\<lambda>a. key (heap s ! a)) as)"
    unfolding repr_def keys_pairs by blast
  show ?thesis unfolding found_at_iff [OF so] by (auto simp: pairs_def)
qed

section \<open>Error returns\<close>

text \<open>
  C4, as amended. On every list built by the package: Insert, Search and Delete return the
  \<open>NilKey\<close> error exactly when the key is nil; Search and Delete return the \<open>NotFound\<close>
  error exactly when the key is not nil and no live node's key compares equal to it under
  the internal comparator. For a key of the same supported type (int or string) as every
  stored key, and on the empty list, that is exactly when the key is absent. Search and
  Delete always return, and a Delete that returns an error returns the list unchanged
  (Search assigns to nothing, so the model gives it no list to return). The claim as
  stated, with "absent" for every non-nil key, fails for a key whose type differs from the
  stored keys' type.
\<close>

theorem error_returns:
  assumes "reachable s" and "contents s = ret kvs"
  shows "((\<exists>s'. Insert k v rnd s = ret (Some NilKey, s')) \<longleftrightarrow> k = NilV) \<and>
     ((\<exists>x. Search k s = ret (x, Some NilKey)) \<longleftrightarrow> k = NilV) \<and>
     ((\<exists>s'. Delete k s = ret (Some NilKey, s')) \<longleftrightarrow> k = NilV) \<and>
     ((\<exists>x. Search k s = ret (x, Some NotFound)) \<longleftrightarrow>
        k \<noteq> NilV \<and> (\<forall>k'\<in>fst ` set kvs. compare k' k \<noteq> 0)) \<and>
     ((\<exists>s'. Delete k s = ret (Some NotFound, s')) \<longleftrightarrow>
        k \<noteq> NilV \<and> (\<forall>k'\<in>fst ` set kvs. compare k' k \<noteq> 0)) \<and>
     ((\<forall>k'\<in>fst ` set kvs. same_supported_type k' k) \<longrightarrow>
        ((\<forall>k'\<in>fst ` set kvs. compare k' k \<noteq> 0) \<longleftrightarrow> k \<notin> fst ` set kvs)) \<and>
     (\<exists>r. Search k s = ret r) \<and>
     (\<exists>e s'. Delete k s = ret (e, s') \<and> (e \<noteq> None \<longrightarrow> s' = s))"
proof -
  from assms(1) obtain as where r: "repr s as" using reachable_repr by blast
  from r assms(2) have kvs: "kvs = pairs (heap s) as" by (rule repr_contents_eq)
  from r obtain a0 where h: "head s = Some a0" by (rule repr_head_cell)
  note f = found_at_keys [OF r, of k, folded kvs]
  have 1: "(\<exists>s'. Insert k v rnd s = ret (Some NilKey, s')) \<longleftrightarrow> k = NilV"
    using Insert_returns_no_error [OF r, of k v rnd NilKey] by (auto simp: Insert_def)
  have 2: "(\<exists>x. Search k s = ret (x, Some NilKey)) \<longleftrightarrow> k = NilV"
    using Search_repr [OF r, of k] by (cases "k = NilV") (auto simp: Search_def)
  have 4: "(\<exists>x. Search k s = ret (x, Some NotFound)) \<longleftrightarrow>
        k \<noteq> NilV \<and> (\<forall>k'\<in>fst ` set kvs. compare k' k \<noteq> 0)"
    using Search_repr [OF r, of k] f by (cases "k = NilV") (auto simp: Search_def)
  have 7: "\<exists>r. Search k s = ret r"
    using Search_repr [OF r, of k] by (cases "k = NilV") (auto simp: Search_def)
  have d: "Delete k s = (if k = NilV then ret (Some NilKey, s)
      else if found_at (heap s) k as
      then ret (None, s\<lparr>heap := unlink_cell (heap s) (pred_at (heap s) k a0 as)
             (hd (stop_at (heap s) k as)), level := 1, slength := slength s - 1\<rparr>)
      else ret (Some NotFound, s))"
    using Delete_found [OF r h, of k] Delete_missing [OF r, of k] by (simp add: Delete_def)
  have 3: "(\<exists>s'. Delete k s = ret (Some NilKey, s')) \<longleftrightarrow> k = NilV"
    unfolding d by simp
  have 5: "(\<exists>s'. Delete k s = ret (Some NotFound, s')) \<longleftrightarrow>
        k \<noteq> NilV \<and> (\<forall>k'\<in>fst ` set kvs. compare k' k \<noteq> 0)"
    unfolding d using f by auto
  have 8: "\<exists>e s'. Delete k s = ret (e, s') \<and> (e \<noteq> None \<longrightarrow> s' = s)"
    unfolding d by simp
  have 6: "(\<forall>k'\<in>fst ` set kvs. same_supported_type k' k) \<longrightarrow>
        ((\<forall>k'\<in>fst ` set kvs. compare k' k \<noteq> 0) \<longleftrightarrow> k \<notin> fst ` set kvs)"
    using compare_same_type by blast
  from 1 2 3 4 5 6 7 8 show ?thesis by blast
qed

lemma first_removed_built: "Delete (StrV ''x'') three_keys = ret (None, first_removed)"
  by (simp add: Delete_def advance.simps getfwd_def setfwd_def hit_def compare_def
      three_keys_def first_removed_def)

lemma mismatched_search: "Search (StrV ''x'') three_keys = ret (StrV ''a'', None)"
  by (simp add: Search_def advance.simps getfwd_def hit_def compare_def three_keys_def)

text \<open>
  The list of the keys 1, 2, 3 holds no key \<open>"x"\<close>, yet Search for \<open>"x"\<close> returns the value
  stored with 1, and Delete of \<open>"x"\<close> removes that node, both without error.
\<close>

theorem absent_key_is_found:
  "reachable three_keys \<and>
   contents three_keys = ret [(IntV 1, StrV ''a''), (IntV 2, StrV ''b''), (IntV 3, StrV ''c'')] \<and>
   StrV ''x'' \<noteq> NilV \<and>
   StrV ''x'' \<notin> fst ` set [(IntV 1, StrV ''a''), (IntV 2, StrV ''b''), (IntV 3, StrV ''c'')] \<and>
   Search (StrV ''x'') three_keys = ret (StrV ''a'', None) \<and>
   Delete (StrV ''x'') three_keys = ret (None, first_removed)"
  using three_keys_reachable three_keys_contents mismatched_search first_removed_built
  by simp

theorem error_returns_witness:
  "reachable three_keys \<and>
   contents three_keys = ret [(IntV 1, StrV ''a''), (IntV 2, StrV ''b''), (IntV 3, StrV ''c'')] \<and>
   (\<exists>x. Search (IntV 5) three_keys = ret (x, Some NotFound)) \<and>
   (\<exists>s'. Delete (IntV 5) three_keys = ret (Some NotFound, s')) \<and>
   \<not> (\<exists>x. Search (StrV ''x'') three_keys = ret (x, Some NotFound)) \<and>
   (\<exists>x. Search NilV three_keys = ret (x, Some NilKey))"
  using three_keys_reachable three_keys_contents
    error_returns [OF three_keys_reachable three_keys_contents, of "IntV 5" NilV tails]
    error_returns [OF three_keys_reachable three_keys_contents, of "StrV ''x''" NilV tails]
    error_returns [OF three_keys_reachable three_keys_contents, of NilV NilV tails]
  by (simp add: compare_def)


section \<open>Keys of a mismatched type\<close>

text \<open>
  C10. The comparator returns 0 for every pair of keys that are not both ints or both
  strings. So on a list built by the package whose first key and the non-nil argument key
  are such a pair, Insert overwrites the value of the first node and allocates nothing,
  Search returns the first node's value, and Delete removes the first node; none reports
  an error.
\<close>

theorem mismatched_key_meets_first_node:
  assumes "reachable s" and "contents s = ret ((k0, v0) # rest)" and "k \<noteq> NilV"
    and "\<not> same_supported_type k0 k"
  shows "(\<forall>a b. \<not> same_supported_type a b \<longrightarrow> compare a b = 0) \<and>
     (\<exists>s'. Insert k v rnd s = ret (None, s') \<and> contents s' = ret ((k0, v) # rest) \<and>
        Length s' = Length s \<and> length (heap s') = length (heap s)) \<and>
     Search k s = ret (v0, None) \<and>
     (\<exists>s'. Delete k s = ret (None, s') \<and> contents s' = ret rest \<and> Length s' = Length s - 1)"
proof -
  from assms(1) obtain as where r: "repr s as" using reachable_repr by blast
  from r assms(2) have kvs: "pairs (heap s) as = (k0, v0) # rest"
    using repr_contents_eq by fastforce
  then obtain a1 as' where as: "as = a1 # as'" and k0: "key (heap s ! a1) = k0"
    and v0: "val (heap s ! a1) = v0" and rest: "rest = pairs (heap s) as'"
    by (cases as) (auto simp: pairs_def)
  from r obtain a0 where h: "head s = Some a0" and d: "distinct as" by (rule repr_head_cell)
  from assms(4) have c: "compare k0 k = 0" by (rule compare_mismatch)
  then have nb: "\<not> before (key (heap s ! a1)) k" by (simp add: before_def k0)
  have st: "stop_at (heap s) k as = a1 # as'" unfolding stop_at_def as using nb by simp
  have tk: "takeWhile (\<lambda>a. before (key (heap s ! a)) k) as = []" unfolding as using nb by simp
  have f: "found_at (heap s) k as" unfolding found_at_def st using c k0 by simp
  let ?s1 = "s\<lparr>heap := (heap s)[a1 := (heap s ! a1)\<lparr>val := v\<rparr>]\<rparr>"
  from Insert_found [OF r assms(3) f, of v rnd] have i: "Insert k v rnd s = ret (None, ?s1)"
    by (simp add: st)
  have r1: "repr ?s1 as" by (rule repr_setval(1) [OF r])
  from d have "a1 \<notin> set as'" unfolding as by simp
  then have "pairs (heap ?s1) as = (k0, v) # rest"
    using repr_setval(2) [OF r, of a1 v] unfolding as rest by (auto simp: pairs_def k0)
  with contents_repr [OF r1] have c1: "contents ?s1 = ret ((k0, v) # rest)" by simp
  from Search_repr [OF r assms(3)] f have s: "Search k s = ret (v0, None)" by (simp add: st v0)
  let ?s2 = "s\<lparr>heap := unlink_cell (heap s) (pred_at (heap s) k a0 as) (hd (stop_at (heap s) k as)),
             level := 1, slength := slength s - 1\<rparr>"
  have dl: "Delete k s = ret (None, ?s2)" by (rule Delete_found [OF r h assms(3) f])
  from repr_unlink [OF r h f] have r2: "repr ?s2 as'" and "pairs (heap ?s2) as' = rest"
    unfolding rest by (simp_all add: tk st pairs_def)
  with contents_repr [OF r2] have c2: "contents ?s2 = ret rest" by simp
  from i c1 s dl c2 compare_mismatch show ?thesis by (auto simp: Length_def)
qed

theorem mismatched_key_meets_first_node_witness:
  "reachable three_keys \<and>
   contents three_keys = ret ((IntV 1, StrV ''a'') # [(IntV 2, StrV ''b''), (IntV 3, StrV ''c'')]) \<and>
   StrV ''x'' \<noteq> NilV \<and> \<not> same_supported_type (IntV 1) (StrV ''x'') \<and>
   (\<exists>s'. Insert (StrV ''x'') (StrV ''v'') heads_once three_keys = ret (None, s') \<and>
      contents s' = ret ((IntV 1, StrV ''v'') # [(IntV 2, StrV ''b''), (IntV 3, StrV ''c'')]) \<and>
      Length s' = Length three_keys \<and> length (heap s') = length (heap three_keys)) \<and>
   Search (StrV ''x'') three_keys = ret (StrV ''a'', None) \<and>
   (\<exists>s'. Delete (StrV ''x'') three_keys = ret (None, s') \<and>
      contents s' = ret [(IntV 2, StrV ''b''), (IntV 3, StrV ''c'')] \<and>
      Length s' = Length three_keys - 1)"
proof -
  have c: "contents three_keys =
      ret ((IntV 1, StrV ''a'') # [(IntV 2, StrV ''b''), (IntV 3, StrV ''c'')])"
    by (rule three_keys_contents)
  have n: "StrV ''x'' \<noteq> NilV" by simp
  have m: "\<not> same_supported_type (IntV 1) (StrV ''x'')" by (simp add: same_supported_type_def)
  from three_keys_reachable c n m
    mismatched_key_meets_first_node [OF three_keys_reachable c n m, of "StrV ''v''" heads_once]
  show ?thesis by (intro conjI) blast+
qed

section \<open>MinString and MaxString with the empty string as a key\<close>

text \<open>
  C9. The claim: on a list with at least one string key, MinString and MaxString return
  the smallest and the largest string key, and a list whose smallest string key is the
  empty string reports that key as found. The code uses the empty string as "no key seen
  yet": after \<open>Insert("", 1)\<close> and \<open>Insert("a", 2)\<close> on a new list, \<open>MinString\<close> returns
  \<open>"a"\<close>, not the empty string, and on the list that holds the empty string alone both
  \<open>MinString\<close> and \<open>MaxString\<close> report that no key was found.
\<close>

theorem MinString_misses_empty_string:
  "Insert (StrV []) (IntV 1) tails (NewSkipList StringT) = ret (None, empty_string_key) \<and>
   Insert (StrV ''a'') (IntV 2) tails empty_string_key = ret (None, two_strings) \<and>
   contents two_strings = ret [(StrV [], IntV 1), (StrV ''a'', IntV 2)] \<and>
   MinString two_strings = ret (''a'', True) \<and>
   MinString empty_string_key = ret ([], False) \<and>
   MaxString empty_string_key = ret ([], False)"
proof -
  have 1: "Insert (StrV []) (IntV 1) tails (NewSkipList StringT) = ret (None, empty_string_key)"
    by (simp add: run_simps NewSkipList_def empty_string_key_def)
  have 2: "Insert (StrV ''a'') (IntV 2) tails empty_string_key = ret (None, two_strings)"
    by (simp add: run_simps strings_Compare_def empty_string_key_def two_strings_def)
  have 3: "contents two_strings = ret [(StrV [], IntV 1), (StrV ''a'', IntV 2)]"
    by (simp add: contents_def Iterator_def iterate.simps Next_def Key_def Value_def getfwd_def
        two_strings_def)
  have 4: "MinString two_strings = ret (''a'', True)"
    by (simp add: MinString_def minString_loop.simps getfwd_def two_strings_def)
  have 5: "MinString empty_string_key = ret ([], False)"
    by (simp add: MinString_def minString_loop.simps getfwd_def empty_string_key_def)
  have 6: "MaxString empty_string_key = ret ([], False)"
    by (simp add: MaxString_def maxString_loop.simps getfwd_def empty_string_key_def)
  from 1 2 3 4 5 6 show ?thesis by (intro conjI)
qed

section \<open>Sorting a sorted slice\<close>

lemma compareKeysOrValues_before: "compareKeysOrValues a b = before a b"
  by (cases a; cases b)
     (auto simp: compareKeysOrValues_def before_def compare_def strings_Compare_def)

lemma insert_left_stays: "rs = [] \<or> \<not> lt x (hd rs) \<Longrightarrow> insert_left lt x rs = x # rs"
  by (cases rs) auto

lemma insert_left_through: "\<forall>y\<in>set rs. lt x y \<Longrightarrow> insert_left lt x rs = rs @ [x]"
  by (induction rs) auto

lemma sort_ascending:
  "sorted_wrt before (rev acc @ xs) \<Longrightarrow>
   foldl (\<lambda>rs x. insert_left before x rs) acc xs = rev xs @ acc"
proof (induction xs arbitrary: acc)
  case Nil
  show ?case by simp
next
  case (Cons x xs)
  have "acc = [] \<or> \<not> before x (hd acc)"
  proof (cases acc)
    case Nil
    then show ?thesis by simp
  next
    case (Cons y ys)
    with Cons.prems have "before y x" by (auto simp: sorted_wrt_append)
    with Cons show ?thesis by (auto dest: before_asym)
  qed
  then have st: "insert_left before x acc = x # acc" by (rule insert_left_stays)
  from Cons.prems have "sorted_wrt before (rev (x # acc) @ xs)" by simp
  from Cons.IH [OF this] show ?case by (simp add: st)
qed

lemma sort_descending:
  "sorted_wrt before (acc @ xs) \<Longrightarrow>
   foldl (\<lambda>rs x. insert_left (\<lambda>a b. before b a) x rs) acc xs = acc @ xs"
proof (induction xs arbitrary: acc)
  case Nil
  show ?case by simp
next
  case (Cons x xs)
  from Cons.prems have "\<forall>y\<in>set acc. before y x" by (auto simp: sorted_wrt_append)
  then have th: "insert_left (\<lambda>a b. before b a) x acc = acc @ [x]" by (rule insert_left_through)
  from Cons.prems have "sorted_wrt before ((acc @ [x]) @ xs)" by simp
  from Cons.IH [OF this] show ?case by (simp add: th)
qed

lemma sort_Slice_sorted:
  assumes "sorted_wrt before ks"
  shows "sort_Slice compareKeysOrValues ks = ks"
    and "sort_Slice (\<lambda>a b. compareKeysOrValues b a) ks = rev ks"
  using sort_ascending [of "[]" ks] sort_descending [of "[]" ks] assms
  by (simp_all add: sort_Slice_def compareKeysOrValues_before [abs_def])

section \<open>SortByKey\<close>

text \<open>
  C7. For every list built by the package, \<open>SortByKey(false)\<close> returns exactly the
  sequence of keys of a full iteration from \<open>Iterator()\<close>, and \<open>SortByKey(true)\<close> returns
  exactly the reverse of that sequence. (The keys of such a list are all ints, or all
  strings, or a single key of another type.)
\<close>

theorem SortByKey_matches_iteration:
  assumes "reachable s"
  shows "\<exists>kvs. iterate (Iterator s) [] = ret kvs \<and> SortByKey False s = ret (map fst kvs) \<and>
     SortByKey True s = ret (rev (map fst kvs))"
proof -
  from assms obtain as where r: "repr s as" and c: "contents s = ret (pairs (heap s) as)"
    by (rule reachable_contents)
  let ?ks = "map fst (pairs (heap s) as)"
  from r have so: "sorted_wrt before ?ks" and len: "slength s = int (length as)"
    unfolding repr_def by blast+
  from r obtain p where g: "getfwd (heap s) (head s) 0 = ret p" and l: "lseg (heap s) p as None"
    by (rule head_next)
  have k: "keys_loop (heap s) p [] = ret ?ks"
    using keys_loop_chain [OF l, of "[]"] by (simp add: keys_pairs)
  have "SortByKey False s = ret ?ks \<and> SortByKey True s = ret (rev ?ks)"
  proof (cases "as = []")
    case True
    with len show ?thesis by (simp add: SortByKey_def pairs_def)
  next
    case False
    with len have "slength s \<noteq> 0" by simp
    then show ?thesis by (simp add: SortByKey_def g k sort_Slice_sorted [OF so])
  qed
  with c show ?thesis unfolding contents_def by blast
qed

theorem SortByKey_matches_iteration_witness:
  "reachable three_keys \<and>
   iterate (Iterator three_keys) [] =
     ret [(IntV 1, StrV ''a''), (IntV 2, StrV ''b''), (IntV 3, StrV ''c'')] \<and>
   SortByKey False three_keys = ret [IntV 1, IntV 2, IntV 3] \<and>
   SortByKey True three_keys = ret [IntV 3, IntV 2, IntV 1]"
  using three_keys_reachable three_keys_contents
    SortByKey_matches_iteration [OF three_keys_reachable]
  by (auto simp: contents_def)

section \<open>The cursor\<close>

text \<open>
  C6. For every list built by the package, a fresh cursor returns nil from \<open>Key()\<close> and
  \<open>Value()\<close>; a full iteration returns, the keys read after each successful \<open>Next()\<close>
  increase strictly in the comparator's order, and the number of successful \<open>Next()\<close>
  calls equals \<open>Length()\<close>; every pair read is the key and value of a stored node
  (\<open>Search\<close> of the key returns the value); the first \<open>Next()\<close> succeeds exactly when the
  list is not empty, and then \<open>Key()\<close> and \<open>Value()\<close> return the first node's key and
  value, while after a failed \<open>Next()\<close> the cursor is still at the head and they return nil.
\<close>

theorem cursor_yields_sorted_contents:
  assumes "reachable s"
  shows "Key (Iterator s) = ret NilV \<and> Value (Iterator s) = ret NilV \<and>
     (\<exists>kvs. iterate (Iterator s) [] = ret kvs \<and> sorted_wrt before (map fst kvs) \<and>
        int (length kvs) = Length s \<and>
        (\<forall>kv\<in>set kvs. Search (fst kv) s = ret (snd kv, None)) \<and>
        (\<exists>it. Next (Iterator s) = ret (kvs \<noteq> [], it) \<and>
           (if kvs \<noteq> [] then Key it = ret (fst (hd kvs)) \<and> Value it = ret (snd (hd kvs))
            else Key it = ret NilV \<and> Value it = ret NilV)))"
proof -
  from assms obtain as where r: "repr s as" and c: "contents s = ret (pairs (heap s) as)"
    by (rule reachable_contents)
  let ?kvs = "pairs (heap s) as"
  from r have so: "sorted_wrt before (map fst ?kvs)" and len: "slength s = int (length as)"
    unfolding repr_def by blast+
  have 1: "Key (Iterator s) = ret NilV" "Value (Iterator s) = ret NilV"
    by (simp_all add: Key_def Value_def Iterator_def)
  have 2: "int (length ?kvs) = Length s" by (simp add: Length_def len pairs_def)
  have 3: "\<forall>kv\<in>set ?kvs. Search (fst kv) s = ret (snd kv, None)"
    using Search_present [OF r] by auto
  from r obtain p where g: "getfwd (heap s) (head s) 0 = ret p" and l: "lseg (heap s) p as None"
    by (rule head_next)
  have 4: "\<exists>it. Next (Iterator s) = ret (?kvs \<noteq> [], it) \<and>
           (if ?kvs \<noteq> [] then Key it = ret (fst (hd ?kvs)) \<and> Value it = ret (snd (hd ?kvs))
            else Key it = ret NilV \<and> Value it = ret NilV)"
  proof (cases as)
    case Nil
    with l have "p = None" by simp
    with Nil g show ?thesis
      by (simp add: Next_def Iterator_def Key_def Value_def pairs_def)
  next
    case (Cons a as')
    with l have "p = Some a" "a < length (heap s)" by simp_all
    with Cons g show ?thesis
      by (simp add: Next_def Iterator_def Key_def Value_def pairs_def)
  qed
  from c 1 so 2 3 4 show ?thesis unfolding contents_def by blast
qed

theorem cursor_yields_sorted_contents_witness:
  "reachable three_keys \<and> Key (Iterator three_keys) = ret NilV \<and>
   iterate (Iterator three_keys) [] =
     ret [(IntV 1, StrV ''a''), (IntV 2, StrV ''b''), (IntV 3, StrV ''c'')] \<and>
   Length three_keys = 3"
  using three_keys_reachable three_keys_contents
    cursor_yields_sorted_contents [OF three_keys_reachable]
  by (auto simp: contents_def)

section \<open>MinInt and MaxInt on a chain\<close>













end
